theory Spec2Isabelle
  imports Complex_Main "HOL-Library.Word" "HOL-Library.Multiset"
begin

unbundle bit_operations_syntax

section \<open>The pseudo-random generator (struct Twister)\<close>

text \<open>
  The generator keeps 624 unsigned 32-bit words \<open>tab_\<close> and a read position \<open>ptr_\<close>.
  The words are \<open>32 word\<close>, so every shift, mask and negation of the source is the same
  operation here. \<open>ptr_\<close> is only ever set to 0 or to \<open>N\<close> and incremented, so it is a
  natural number. An \<open>int\<close> returned by the source is represented by its 32-bit pattern
  and read with \<open>sint\<close> where the source uses it as a signed number.
\<close>

type_synonym u32 = "32 word"

record Twister =
  tab :: "u32 list"
  ptr :: nat

definition N :: nat where
  "N = 624"

definition M :: nat where
  "M = 397"

text \<open>The body shared by the three loops of \<open>generate_numbers\<close>: \<open>val\<close> is the word
  397 places ahead, \<open>cur\<close> is \<open>tab_[i]\<close> and \<open>s1\<close> is the next word.\<close>

definition twist :: "u32 \<Rightarrow> u32 \<Rightarrow> u32 \<Rightarrow> u32" where
  "twist val cur s1 =
     (let y = (cur AND 0x80000000) OR (s1 AND 0x7FFFFFFF)
      in val XOR drop_bit 1 y XOR ((- (s1 AND 1)) AND 0x9908B0DF))"

definition generate_numbers :: "Twister \<Rightarrow> Twister" where
  "generate_numbers tw =
     (let t1 = fold (\<lambda>i t. t[i := twist (t ! (i + M)) (t ! i) (t ! (i + 1))]) [0..<N - M] (tab tw);
          t2 = fold (\<lambda>i t. t[i := twist (t ! (i + M - N)) (t ! i) (t ! (i + 1))]) [N - M..<N - 1] t1;
          t3 = t2[N - 1 := twist (t2 ! (M - 1)) (t2 ! (N - 1)) (t2 ! 0)]
      in \<lparr>tab = t3, ptr = 0\<rparr>)"

definition extract_number :: "Twister \<Rightarrow> nat \<Rightarrow> u32" where
  "extract_number tw i =
     (let y = tab tw ! i;
          y = y XOR drop_bit 11 y;
          y = y XOR (push_bit 7 y AND 0x9D2C5680);
          y = y XOR (push_bit 15 y AND 0xEFC60000);
          y = y XOR drop_bit 18 y
      in y)"

text \<open>\<open>next_int()\<close>: the next tempered 32-bit output and the advanced generator.\<close>

definition next_int :: "Twister \<Rightarrow> u32 \<times> Twister" where
  "next_int tw =
     (let tw1 = (if ptr tw \<ge> N then generate_numbers tw else tw)
      in (extract_number tw1 (ptr tw1), tw1\<lparr>ptr := ptr tw1 + 1\<rparr>))"

text \<open>
  \<open>next_float()\<close> masks the output with \<open>0x7FFFFFFF\<close> and multiplies by
  \<open>4.656612873077392578125e-10\<close>, which is exactly \<open>2^-31\<close>; this product is exact in
  \<open>double\<close>. The function returns \<open>float\<close>, so the return statement narrows the product
  to single precision: it is rounded to 24 significant bits, to the nearest value, ties
  to the even one (the default rounding of IEEE 754). For a numerator \<open>a\<close>,
  \<open>float_shift a\<close> is the number of low bits that do not fit, and \<open>round_to_float a\<close> is
  the numerator of the returned value, again over \<open>2^31\<close>. Exponents stay between \<open>-31\<close>
  and \<open>0\<close>, so there is neither underflow nor overflow.
\<close>

function float_shift :: "nat \<Rightarrow> nat" where
  "float_shift a = (if a < 2 ^ 24 then 0 else Suc (float_shift (a div 2)))"
  by pat_completeness auto
termination
  by (relation "measure (\<lambda>a. a)") auto

declare float_shift.simps [simp del]

definition round_to_float :: "nat \<Rightarrow> nat" where
  "round_to_float a =
     (let s = float_shift a;
          q = a div 2 ^ s;
          r = a mod 2 ^ s
      in if 2 * r > 2 ^ s \<or> (2 * r = 2 ^ s \<and> odd q) then (q + 1) * 2 ^ s else q * 2 ^ s)"

definition next_float :: "Twister \<Rightarrow> real \<times> Twister" where
  "next_float tw =
     (let tw1 = (if ptr tw \<ge> N then generate_numbers tw else tw);
          a = extract_number tw1 (ptr tw1) AND 0x7FFFFFFF
      in (real (round_to_float (unat a)) * (1 / 2 ^ 31), tw1\<lparr>ptr := ptr tw1 + 1\<rparr>))"

text \<open>\<open>next_int(int max)\<close>. The do-while loop may run forever, so it lives in the option
  monad: \<open>None\<close> means that the loop does not return.\<close>

definition used_mask :: "int \<Rightarrow> u32" where
  "used_mask mx =
     (let used = word_of_int (mx - 1);
          used = used OR drop_bit 1 used;
          used = used OR drop_bit 2 used;
          used = used OR drop_bit 4 used;
          used = used OR drop_bit 8 used;
          used = used OR drop_bit 16 used
      in used)"

partial_function (option) next_int_loop :: "int \<Rightarrow> u32 \<Rightarrow> Twister \<Rightarrow> (int \<times> Twister) option" where
  "next_int_loop mx used tw =
     (case next_int tw of (r, tw') \<Rightarrow>
        (let a = sint (r AND used)
         in if a \<ge> mx then next_int_loop mx used tw' else Some (a, tw')))"

definition next_int_max :: "Twister \<Rightarrow> int \<Rightarrow> (int \<times> Twister) option" where
  "next_int_max tw mx = next_int_loop mx (used_mask mx) tw"

section \<open>Cards (struct Card)\<close>

text \<open>
  The three fields of the source are \<open>char cost[5]\<close>, \<open>char type\<close> and \<open>char value\<close>;
  they are read as integers. The field \<open>value\<close> is called \<open>value_c\<close> here. A card whose
  \<open>type\<close> is \<open>-1\<close> marks an empty table slot. The default constructor sets only
  \<open>type = -1\<close>; the other fields of such a card are never read by the functions below
  and are fixed to 0.
\<close>

record Card =
  cost :: "int list"
  type :: int
  value_c :: int

definition Card_init :: Card where
  "Card_init = \<lparr>cost = [0, 0, 0, 0, 0], type = - 1, value_c = 0\<rparr>"

text \<open>\<open>Card::get_cost\<close>: the loop over the five colours, with its early return of \<open>-1\<close>.
  No step of it can overflow a 32-bit \<open>int\<close>: the sum \<open>bonuses[i] + 4\<close> is only formed
  when \<open>bonuses[i] < cost[i] \<le> 127\<close>, and a difference is only added when it is at most 4.\<close>

fun get_cost_loop :: "int list \<Rightarrow> int list \<Rightarrow> nat list \<Rightarrow> int \<Rightarrow> int" where
  "get_cost_loop cs bonuses [] res = (if res > 12 then - 1 else res)"
| "get_cost_loop cs bonuses (i # is) res =
     (if bonuses ! i \<ge> cs ! i then get_cost_loop cs bonuses is res
      else if bonuses ! i + 4 < cs ! i then - 1
      else get_cost_loop cs bonuses is (res + (cs ! i - bonuses ! i)))"

definition get_cost :: "Card \<Rightarrow> int list \<Rightarrow> int" where
  "get_cost c bonuses = get_cost_loop (cost c) bonuses [0..<5] 0"

text \<open>The specification's words for the same quantity: the deficit of a colour is the
  card's cost in that colour minus the bonus, when positive.\<close>

definition deficit :: "Card \<Rightarrow> int list \<Rightarrow> nat \<Rightarrow> int" where
  "deficit c bonuses i = (if cost c ! i - bonuses ! i > 0 then cost c ! i - bonuses ! i else 0)"

definition summed_deficit :: "Card \<Rightarrow> int list \<Rightarrow> int" where
  "summed_deficit c bonuses = (\<Sum>i \<leftarrow> [0..<5]. deficit c bonuses i)"

definition infeasible :: "Card \<Rightarrow> int list \<Rightarrow> bool" where
  "infeasible c bonuses \<longleftrightarrow>
     (\<exists>i \<in> set [0..<5]. deficit c bonuses i > 4) \<or> summed_deficit c bonuses > 12"

text \<open>Modelled from the spec: the catalogue of all cards (\<open>splendor_cards.h\<close>) is not among
  the sources. The specification's data model gives a card five costs between 0 and 10,
  a colour tag (0 to 4 after \<open>color_str_to_int\<close>) and a point value between 0 and 10.\<close>

definition catalogue_card :: "Card \<Rightarrow> bool" where
  "catalogue_card c \<longleftrightarrow>
     length (cost c) = 5 \<and> list_all (\<lambda>x. 0 \<le> x \<and> x \<le> 10) (cost c) \<and>
     0 \<le> type c \<and> type c < 5 \<and> 0 \<le> value_c c \<and> value_c c \<le> 10"

section \<open>Decks (struct Deck)\<close>

text \<open>
  \<open>table\<close> is the array of 4 slots with its counter \<open>table_sz\<close>. The backlog array
  \<open>q[30]\<close> with its counter \<open>q_sz\<close> is modelled by the list of its live entries
  \<open>q[0], \<dots>, q[q_sz - 1]\<close>: writing \<open>q[q_sz++]\<close> appends, reading \<open>q[--q_sz]\<close> takes the
  last entry. An access outside an array is undefined behaviour in the source; the model
  returns the error \<open>OutOfBounds\<close> there.
\<close>

datatype error = OutOfBounds

record Deck =
  table :: "Card list"
  table_sz :: nat
  q :: "Card list"

definition q_sz :: "Deck \<Rightarrow> nat" where
  "q_sz d = length (q d)"

definition Deck_init :: Deck where
  "Deck_init = \<lparr>table = replicate 4 Card_init, table_sz = 0, q = []\<rparr>"

definition can_peak_card :: "Deck \<Rightarrow> int \<Rightarrow> error + bool" where
  "can_peak_card d idx =
     (if int (table_sz d) < idx then Inr False
      else if idx < 0 \<or> 4 \<le> idx then Inl OutOfBounds
      else if type (table d ! nat idx) = - 1 then Inr False
      else Inr True)"

definition pop_card :: "Deck \<Rightarrow> nat \<Rightarrow> Deck" where
  "pop_card d idx =
     (let t = (table d)[idx := (table d ! idx)\<lparr>type := - 1\<rparr>]
      in if q_sz d > 0 then d\<lparr>table := t[idx := last (q d)], q := butlast (q d)\<rparr>
         else d\<lparr>table := t\<rparr>)"

definition to_set :: "Deck \<Rightarrow> Card set" where
  "to_set d = set (take (table_sz d) (table d)) \<union> set (q d)"

text \<open>Integer division and remainder of C++ truncate towards zero.\<close>

definition c_div :: "int \<Rightarrow> int \<Rightarrow> int" where
  "c_div a b = sgn a * sgn b * (\<bar>a\<bar> div \<bar>b\<bar>)"

definition c_mod :: "int \<Rightarrow> int \<Rightarrow> int" where
  "c_mod a b = a - b * c_div a b"

section \<open>Game states (struct State)\<close>

text \<open>
  The arrays \<open>move_sequence[40]\<close> and \<open>card_sequence[40]\<close> with their counters are the
  lists of their live entries, as for the backlog. A write at index 40 or more is the
  error \<open>OutOfBounds\<close>.
\<close>

record State =
  move_sequence :: "int list"
  points :: int
  tokens_cost :: int
  rounds :: int
  card_sequence :: "Card list"

definition State_init :: State where
  "State_init = \<lparr>move_sequence = [], points = 0, tokens_cost = 0, rounds = 0, card_sequence = []\<rparr>"

text \<open>The copy constructor copies everything but the card sequence; its only use,
  \<open>State cand = st; cand.card_sequence_sz = 0;\<close>, leaves the card sequence empty.\<close>

definition State_copy :: "State \<Rightarrow> State" where
  "State_copy s = s\<lparr>card_sequence := []\<rparr>"

definition DeepCopy :: "State \<Rightarrow> State \<Rightarrow> State" where
  "DeepCopy this s = s"

text \<open>
  \<open>Deck::process_move\<close>. The out-parameters \<open>points\<close>, \<open>tokens_cost\<close> and \<open>rounds\<close> point
  into the state that \<open>play_out\<close> builds and \<open>card_sequence\<close> points at its first free
  card slot, so the function takes that state and returns it updated, together with the
  deck and the bonus vector. The card stored through \<open>card_sequence\<close> becomes a live entry
  when \<open>play_out\<close> increments \<open>card_sequence_sz\<close>, which it does exactly when the result is
  \<open>true\<close>; the model appends it here. The bonus vector has the five entries that
  \<open>play_out\<close> gives it, so a card type outside \<open>[0, 5)\<close> indexes it out of range.
\<close>

definition process_move ::
  "Deck \<Rightarrow> int \<Rightarrow> State \<Rightarrow> int list \<Rightarrow> error + (bool \<times> Deck \<times> State \<times> int list)" where
  "process_move d x s bonus =
     (case can_peak_card d x of
        Inl e \<Rightarrow> Inl e
      | Inr False \<Rightarrow> Inr (False, d, s, bonus)
      | Inr True \<Rightarrow>
          (let card = table d ! nat x;
               c = get_cost card bonus
           in if c = - 1 then Inr (False, d, s, bonus)
              else if rounds s + 1 + c_div (tokens_cost s + 3 + c) 4 > 28 then Inr (False, d, s, bonus)
              else if type card < 0 \<or> 5 \<le> type card then Inl OutOfBounds
              else if 40 \<le> length (card_sequence s) then Inl OutOfBounds
              else Inr (True, pop_card d (nat x),
                        s\<lparr>tokens_cost := tokens_cost s + c,
                          rounds := rounds s + 1,
                          points := points s + value_c card,
                          card_sequence := card_sequence s @ [card]\<rparr>,
                        bonus[nat (type card) := bonus ! nat (type card) + 1])))"

text \<open>\<open>State::play_out\<close>. The loop variables are the three decks (local copies), the bonus
  vector and the state under construction.\<close>

type_synonym replay = "Deck \<times> Deck \<times> Deck \<times> int list \<times> State"

definition commit_move :: "State \<Rightarrow> int \<Rightarrow> error + State" where
  "commit_move s x =
     (if 40 \<le> length (move_sequence s) then Inl OutOfBounds
      else Inr (s\<lparr>move_sequence := move_sequence s @ [x]\<rparr>))"

definition play_out_step :: "replay \<Rightarrow> int \<Rightarrow> error + replay" where
  "play_out_step r move =
     (case r of (d1, d2, d3, bonus, s) \<Rightarrow>
        (let x = c_mod move 16
         in if x < 4 then
              (case process_move d1 x s bonus of
                 Inl e \<Rightarrow> Inl e
               | Inr (ok, d1', s', bonus') \<Rightarrow>
                   if ok then (case commit_move s' x of Inl e \<Rightarrow> Inl e
                               | Inr s'' \<Rightarrow> Inr (d1', d2, d3, bonus', s''))
                   else Inr (d1', d2, d3, bonus', s'))
            else if x < 8 then
              (case process_move d2 (x - 4) s bonus of
                 Inl e \<Rightarrow> Inl e
               | Inr (ok, d2', s', bonus') \<Rightarrow>
                   if ok then (case commit_move s' x of Inl e \<Rightarrow> Inl e
                               | Inr s'' \<Rightarrow> Inr (d1, d2', d3, bonus', s''))
                   else Inr (d1, d2', d3, bonus', s'))
            else
              (case process_move d3 (x - 8) s bonus of
                 Inl e \<Rightarrow> Inl e
               | Inr (ok, d3', s', bonus') \<Rightarrow>
                   if ok then (case commit_move s' x of Inl e \<Rightarrow> Inl e
                               | Inr s'' \<Rightarrow> Inr (d1, d2, d3', bonus', s''))
                   else Inr (d1, d2, d3', bonus', s'))))"

fun play_out_loop :: "replay \<Rightarrow> int list \<Rightarrow> error + replay" where
  "play_out_loop r [] = Inr r"
| "play_out_loop r (move # moves) =
     (case play_out_step r move of Inl e \<Rightarrow> Inl e | Inr r' \<Rightarrow> play_out_loop r' moves)"

definition play_out :: "State \<Rightarrow> Deck \<Rightarrow> Deck \<Rightarrow> Deck \<Rightarrow> State \<Rightarrow> error + State" where
  "play_out this d1 d2 d3 cand =
     (case play_out_loop (d1, d2, d3, replicate 5 0, this) (move_sequence cand) of
        Inl e \<Rightarrow> Inl e
      | Inr (d1', d2', d3', bonus', s') \<Rightarrow> Inr s')"

section \<open>Vocabulary for statements about replay\<close>

text \<open>The components of the loop variables of \<open>play_out\<close>.\<close>

definition replay_state :: "replay \<Rightarrow> State" where
  "replay_state r = (case r of (d1, d2, d3, bonus, s) \<Rightarrow> s)"

definition replay_bonus :: "replay \<Rightarrow> int list" where
  "replay_bonus r = (case r of (d1, d2, d3, bonus, s) \<Rightarrow> bonus)"

text \<open>The deck and the slot that \<open>play_out\<close> hands to \<open>process_move\<close> for a token.\<close>

definition addressed :: "replay \<Rightarrow> int \<Rightarrow> Deck \<times> int" where
  "addressed r move =
     (case r of (d1, d2, d3, bonus, s) \<Rightarrow>
        (let x = c_mod move 16
         in if x < 4 then (d1, x) else if x < 8 then (d2, x - 4) else (d3, x - 8)))"

text \<open>The three reasons for which a move is rejected: the slot is empty, the cost is
  infeasible, or the round budget would be exceeded.\<close>

definition rejects :: "Deck \<Rightarrow> int \<Rightarrow> State \<Rightarrow> int list \<Rightarrow> bool" where
  "rejects d idx s bonus \<longleftrightarrow>
     can_peak_card d idx = Inr False \<or>
     (can_peak_card d idx = Inr True \<and>
      (get_cost (table d ! nat idx) bonus = - 1 \<or>
       rounds s + 1 + c_div (tokens_cost s + 3 + get_cost (table d ! nat idx) bonus) 4 > 28))"

definition token_rejected :: "replay \<Rightarrow> int \<Rightarrow> bool" where
  "token_rejected r move \<longleftrightarrow>
     rejects (fst (addressed r move)) (snd (addressed r move)) (replay_state r) (replay_bonus r)"

text \<open>A token is committed when its call of \<open>process_move\<close> returns \<open>true\<close>.\<close>

definition token_committed :: "replay \<Rightarrow> int \<Rightarrow> bool" where
  "token_committed r move \<longleftrightarrow>
     (case process_move (fst (addressed r move)) (snd (addressed r move))
             (replay_state r) (replay_bonus r) of
        Inl e \<Rightarrow> False
      | Inr (ok, d', s', bonus') \<Rightarrow> ok)"

fun count_commits :: "replay \<Rightarrow> int list \<Rightarrow> nat" where
  "count_commits r [] = 0"
| "count_commits r (move # moves) =
     (case play_out_step r move of
        Inl e \<Rightarrow> 0
      | Inr r' \<Rightarrow> (if token_committed r move then 1 else 0) + count_commits r' moves)"

text \<open>The specification's reading of a token: apply the move to table slot \<open>j\<close> of deck
  number \<open>k\<close> (0, 1 or 2) and, if it is accepted, append the token \<open>x\<close>.\<close>

definition step_at :: "nat \<Rightarrow> int \<Rightarrow> int \<Rightarrow> replay \<Rightarrow> error + replay" where
  "step_at k j x r =
     (case r of (d1, d2, d3, bonus, s) \<Rightarrow>
        (case process_move (if k = 0 then d1 else if k = 1 then d2 else d3) j s bonus of
           Inl e \<Rightarrow> Inl e
         | Inr (ok, d', s', bonus') \<Rightarrow>
             (case (if ok then commit_move s' x else Inr s') of
                Inl e \<Rightarrow> Inl e
              | Inr s'' \<Rightarrow>
                  Inr (if k = 0 then d' else d1, if k = 1 then d' else d2,
                       if k = 0 \<or> k = 1 then d3 else d', bonus', s''))))"

text \<open>Decks as the program builds them: four table slots, and every card that is not an
  empty slot comes from the catalogue.\<close>

definition Deck_ok :: "Deck \<Rightarrow> bool" where
  "Deck_ok d \<longleftrightarrow>
     length (table d) = 4 \<and> table_sz d \<le> 4 \<and>
     list_all (\<lambda>c. type c = - 1 \<or> catalogue_card c) (table d) \<and>
     list_all (\<lambda>c. type c = - 1 \<or> catalogue_card c) (q d)"

text \<open>The cost that \<open>process_move\<close> computes for the card addressed by a token.\<close>

definition token_cost :: "replay \<Rightarrow> int \<Rightarrow> int" where
  "token_cost r move =
     get_cost (table (fst (addressed r move)) ! nat (snd (addressed r move))) (replay_bonus r)"

text \<open>Invariants of the replay loop: the counters stay small (far from the limits of a
  32-bit \<open>int\<close>), and both sequences have as many entries as rounds were played.\<close>

definition count_inv :: "replay \<Rightarrow> bool" where
  "count_inv r \<longleftrightarrow>
     0 \<le> tokens_cost (replay_state r) \<and> tokens_cost (replay_state r) \<le> 108 \<and>
     0 \<le> rounds (replay_state r) \<and> rounds (replay_state r) \<le> 28 \<and>
     int (length (move_sequence (replay_state r))) = rounds (replay_state r) \<and>
     int (length (card_sequence (replay_state r))) = rounds (replay_state r)"

definition decks_ok :: "replay \<Rightarrow> bool" where
  "decks_ok r \<longleftrightarrow> (case r of (d1, d2, d3, bonus, s) \<Rightarrow> Deck_ok d1 \<and> Deck_ok d2 \<and> Deck_ok d3)"

section \<open>Random deck completion (Deck::fill_up_randomly)\<close>

text \<open>
  The two loops draw an index with \<open>next_int(v.size())\<close>, copy \<open>v[x]\<close> into the deck, swap
  \<open>v[x]\<close> with the last pool entry and drop that entry. The pool \<open>v\<close> is a by-value
  parameter of the source; the model returns what is left of it together with the deck
  and the generator. \<open>None\<close> means that a draw does not return.
\<close>

definition draw_swap_pop :: "Card list \<Rightarrow> nat \<Rightarrow> Card list" where
  "draw_swap_pop v x = butlast (v[x := last v, length v - 1 := v ! x])"

partial_function (option) fill_table ::
  "Deck \<Rightarrow> Card list \<Rightarrow> Twister \<Rightarrow> (Deck \<times> Card list \<times> Twister) option" where
  "fill_table d v tw =
     (if table_sz d < 4 \<and> v \<noteq> [] then
        (case next_int_max tw (int (length v)) of
           None \<Rightarrow> None
         | Some (x, tw') \<Rightarrow>
             fill_table (d\<lparr>table := (table d)[table_sz d := v ! nat x], table_sz := table_sz d + 1\<rparr>)
               (draw_swap_pop v (nat x)) tw')
      else Some (d, v, tw))"

partial_function (option) fill_q ::
  "nat \<Rightarrow> Deck \<Rightarrow> Card list \<Rightarrow> Twister \<Rightarrow> (error + Deck \<times> Card list \<times> Twister) option" where
  "fill_q desired_size d v tw =
     (if q_sz d < desired_size \<and> v \<noteq> [] then
        (case next_int_max tw (int (length v)) of
           None \<Rightarrow> None
         | Some (x, tw') \<Rightarrow>
             if 30 \<le> q_sz d then Some (Inl OutOfBounds)
             else fill_q desired_size (d\<lparr>q := q d @ [v ! nat x]\<rparr>) (draw_swap_pop v (nat x)) tw')
      else Some (Inr (d, v, tw)))"

definition fill_up_randomly ::
  "Deck \<Rightarrow> nat \<Rightarrow> Card list \<Rightarrow> Twister \<Rightarrow> (error + Deck \<times> Card list \<times> Twister) option" where
  "fill_up_randomly d desired_size v setup_twister =
     (case fill_table d v setup_twister of
        None \<Rightarrow> None
      | Some (d', v', tw') \<Rightarrow> fill_q desired_size d' v' tw')"

section \<open>Mutation of a candidate (State::mutate)\<close>

text \<open>The \<open>while (true)\<close> loop of CHANGE, which draws until the token differs from the old
  one.\<close>

partial_function (option) change_loop :: "int \<Rightarrow> Twister \<Rightarrow> (int \<times> Twister) option" where
  "change_loop old tw =
     (case next_int_max tw 10 of
        None \<Rightarrow> None
      | Some (nxt, tw') \<Rightarrow> if nxt = old then change_loop old tw' else Some (nxt, tw'))"

text \<open>INSERT shifts the entries from \<open>pos\<close> on by one place and stores the new token at
  \<open>pos\<close>; on the list of live entries this is an insertion.\<close>

definition mutate :: "State \<Rightarrow> Twister \<Rightarrow> (bool \<times> State \<times> Twister) option" where
  "mutate s twister =
     (case next_int_max twister 3 of
        None \<Rightarrow> None
      | Some (md, tw1) \<Rightarrow>
          if md = 0 then
            (if length (move_sequence s) = 0 then Some (False, s, tw1)
             else
               (case next_int_max tw1 (int (length (move_sequence s))) of
                  None \<Rightarrow> None
                | Some (pos, tw2) \<Rightarrow>
                    (case change_loop (move_sequence s ! nat pos) tw2 of
                       None \<Rightarrow> None
                     | Some (nxt, tw3) \<Rightarrow>
                         Some (True, s\<lparr>move_sequence := (move_sequence s)[nat pos := nxt]\<rparr>, tw3))))
          else if md = 1 then
            (if length (move_sequence s) > 30 then Some (False, s, tw1)
             else
               (case next_int_max tw1 (int (length (move_sequence s)) + 1) of
                  None \<Rightarrow> None
                | Some (pos, tw2) \<Rightarrow>
                    (case next_int_max tw2 10 of
                       None \<Rightarrow> None
                     | Some (nxt, tw3) \<Rightarrow>
                         Some (True,
                               s\<lparr>move_sequence :=
                                   take (nat pos) (move_sequence s) @ [nxt] @ drop (nat pos) (move_sequence s)\<rparr>,
                               tw3))))
          else if md = 2 then
            (if length (move_sequence s) < 3 then Some (False, s, tw1)
             else
               (case next_int_max tw1 (int (length (move_sequence s))) of
                  None \<Rightarrow> None
                | Some (px, tw2) \<Rightarrow>
                    (case next_int_max tw2 (int (length (move_sequence s))) of
                       None \<Rightarrow> None
                     | Some (py, tw3) \<Rightarrow>
                         if px = py then Some (False, s, tw3)
                         else if move_sequence s ! nat px = move_sequence s ! nat py then Some (False, s, tw3)
                         else Some (True,
                                    s\<lparr>move_sequence :=
                                        (move_sequence s)[nat px := move_sequence s ! nat py,
                                                          nat py := move_sequence s ! nat px]\<rparr>,
                                    tw3))))
          else Some (True, s, tw1))"

text \<open>\<open>while (!cand.mutate(annealing_twister)) {}\<close>\<close>

partial_function (option) mutate_retry :: "State \<Rightarrow> Twister \<Rightarrow> (State \<times> Twister) option" where
  "mutate_retry s tw =
     (case mutate s tw of
        None \<Rightarrow> None
      | Some (ok, s', tw') \<Rightarrow> if ok then Some (s', tw') else mutate_retry s' tw')"

section \<open>The annealing search (play_randomly) and its drivers\<close>

text \<open>
  The temperature and the acceptance test are floating-point computations. The
  temperature does not depend on the search: it takes the values \<open>2 * c^k\<close> until it is no
  longer above \<open>0.1\<close>. The model takes the list \<open>temps\<close> of the temperatures for which
  the loop body runs, and the acceptance test
  \<open>exp((refined.points - st.points) / temp) > u\<close> as a function \<open>accept temp delta u\<close>, as
  parameters. The global \<open>best_state\<close> is passed in and returned.
\<close>

type_synonym search = "State \<times> State \<times> Twister"

definition anneal_step ::
  "(real \<Rightarrow> int \<Rightarrow> real \<Rightarrow> bool) \<Rightarrow> Deck \<Rightarrow> Deck \<Rightarrow> Deck \<Rightarrow> real \<Rightarrow> search \<Rightarrow> (error + search) option" where
  "anneal_step accept d1 d2 d3 temp c =
     (case c of (st, best_state, tw) \<Rightarrow>
        (case mutate_retry (State_copy st) tw of
           None \<Rightarrow> None
         | Some (cand, tw1) \<Rightarrow>
             (case play_out State_init d1 d2 d3 cand of
                Inl e \<Rightarrow> Some (Inl e)
              | Inr refined \<Rightarrow>
                  (let best_state' =
                         (if points refined > points best_state then DeepCopy best_state refined
                          else best_state);
                       (u, tw2) = next_float tw1;
                       st' = (if accept temp (points refined - points st) u then refined else st)
                   in Some (Inr (st', best_state', tw2))))))"

fun anneal_loop ::
  "(real \<Rightarrow> int \<Rightarrow> real \<Rightarrow> bool) \<Rightarrow> Deck \<Rightarrow> Deck \<Rightarrow> Deck \<Rightarrow> real list \<Rightarrow> search \<Rightarrow> (error + search) option" where
  "anneal_loop accept d1 d2 d3 [] c = Some (Inr c)"
| "anneal_loop accept d1 d2 d3 (temp # temps) c =
     (case anneal_step accept d1 d2 d3 temp c of
        None \<Rightarrow> None
      | Some (Inl e) \<Rightarrow> Some (Inl e)
      | Some (Inr c') \<Rightarrow> anneal_loop accept d1 d2 d3 temps c')"

definition play_randomly ::
  "(real \<Rightarrow> int \<Rightarrow> real \<Rightarrow> bool) \<Rightarrow> real list \<Rightarrow> Deck \<Rightarrow> Deck \<Rightarrow> Deck \<Rightarrow> State \<Rightarrow> Twister
     \<Rightarrow> (error + State \<times> Twister) option" where
  "play_randomly accept temps d1 d2 d3 best_state annealing_twister =
     (case anneal_loop accept d1 d2 d3 temps (State_init, best_state, annealing_twister) of
        None \<Rightarrow> None
      | Some (Inl e) \<Rightarrow> Some (Inl e)
      | Some (Inr (st, best_state', tw')) \<Rightarrow> Some (Inr (best_state', tw')))"

fun play_runs ::
  "(real \<Rightarrow> int \<Rightarrow> real \<Rightarrow> bool) \<Rightarrow> real list \<Rightarrow> Deck \<Rightarrow> Deck \<Rightarrow> Deck \<Rightarrow> nat \<Rightarrow> State \<Rightarrow> Twister
     \<Rightarrow> (error + State \<times> Twister) option" where
  "play_runs accept temps d1 d2 d3 0 best_state tw = Some (Inr (best_state, tw))"
| "play_runs accept temps d1 d2 d3 (Suc n) best_state tw =
     (case play_randomly accept temps d1 d2 d3 best_state tw of
        None \<Rightarrow> None
      | Some (Inl e) \<Rightarrow> Some (Inl e)
      | Some (Inr (best_state', tw')) \<Rightarrow> play_runs accept temps d1 d2 d3 n best_state' tw')"

definition play_single_setting ::
  "(real \<Rightarrow> int \<Rightarrow> real \<Rightarrow> bool) \<Rightarrow> real list \<Rightarrow> Deck \<Rightarrow> Deck \<Rightarrow> Deck \<Rightarrow> State \<Rightarrow> Twister
     \<Rightarrow> (error + State \<times> Twister) option" where
  "play_single_setting accept temps d1 d2 d3 best_state annealing_twister =
     play_runs accept temps (d1\<lparr>q := rev (q d1)\<rparr>) (d2\<lparr>q := rev (q d2)\<rparr>) d3 10
       best_state annealing_twister"

text \<open>\<open>play_randomized_deck\<close>. The catalogue \<open>full_deck_set\<close> is a parameter: the list of
  its cards in the order of the set. The result is the final \<open>best_state\<close> with both
  generators.\<close>

definition play_randomized_deck ::
  "(real \<Rightarrow> int \<Rightarrow> real \<Rightarrow> bool) \<Rightarrow> real list \<Rightarrow> Card list \<Rightarrow> Deck \<Rightarrow> Deck \<Rightarrow> Deck \<Rightarrow> State
     \<Rightarrow> Twister \<Rightarrow> Twister \<Rightarrow> (error + State \<times> Twister \<times> Twister) option" where
  "play_randomized_deck accept temps full_deck_set d1 d2 d3 best_state setup_twister annealing_twister =
     (let remaining1 = filter (\<lambda>c. value_c c = 0 \<and> c \<notin> to_set d1) full_deck_set;
          remaining2 = filter (\<lambda>c. value_c c \<noteq> 0 \<and> value_c c \<noteq> 10 \<and> c \<notin> to_set d2) full_deck_set
      in case fill_up_randomly d1 25 remaining1 setup_twister of
           None \<Rightarrow> None
         | Some (Inl e) \<Rightarrow> Some (Inl e)
         | Some (Inr (d1', v1, tw1)) \<Rightarrow>
             (case fill_up_randomly d2 25 remaining2 tw1 of
                None \<Rightarrow> None
              | Some (Inl e) \<Rightarrow> Some (Inl e)
              | Some (Inr (d2', v2, tw2)) \<Rightarrow>
                  (case play_single_setting accept temps d1' d2' d3 State_init annealing_twister of
                     None \<Rightarrow> None
                   | Some (Inl e) \<Rightarrow> Some (Inl e)
                   | Some (Inr (best_state', tw')) \<Rightarrow> Some (Inr (best_state', tw2, tw')))))"

section \<open>Vocabulary for statements about deck completion and the search\<close>

text \<open>The cards that a completion has put on the table and into the backlog of the
  deck \<open>d'\<close>, compared with the deck \<open>d\<close> before.\<close>

definition added_table :: "Deck \<Rightarrow> Deck \<Rightarrow> Card list" where
  "added_table d d' = take (table_sz d' - table_sz d) (drop (table_sz d) (table d'))"

definition added_q :: "Deck \<Rightarrow> Deck \<Rightarrow> Card list" where
  "added_q d d' = drop (q_sz d) (q d')"

text \<open>What the first loop of \<open>fill_up_randomly\<close> achieves.\<close>

definition table_filled :: "Deck \<Rightarrow> Card list \<Rightarrow> Deck \<times> Card list \<times> Twister \<Rightarrow> bool" where
  "table_filled d v res \<longleftrightarrow>
     (case res of (d', v', tw') \<Rightarrow>
        q d' = q d \<and> length (table d') = length (table d) \<and>
        table_sz d' = table_sz d + min (4 - table_sz d) (length v) \<and>
        length v' = length v - min (4 - table_sz d) (length v) \<and>
        take (table_sz d) (table d') = take (table_sz d) (table d) \<and>
        mset (added_table d d') + mset v' = mset v)"

text \<open>What the second loop achieves.\<close>

definition q_filled :: "nat \<Rightarrow> Deck \<Rightarrow> Card list \<Rightarrow> Deck \<times> Card list \<times> Twister \<Rightarrow> bool" where
  "q_filled desired_size d v res \<longleftrightarrow>
     (case res of (d', v', tw') \<Rightarrow>
        table d' = table d \<and> table_sz d' = table_sz d \<and>
        q_sz d' = q_sz d + min (desired_size - q_sz d) (length v) \<and>
        length v' = length v - min (desired_size - q_sz d) (length v) \<and>
        take (q_sz d) (q d') = q d \<and>
        mset (added_q d d') + mset v' = mset v)"

text \<open>The generator after \<open>k\<close> successive draws \<open>next_int(n)\<close>, \<open>next_int(n - 1)\<close>, \<open>\<dots>\<close>, as a
  completion makes them from a pool of \<open>n\<close> cards; \<open>None\<close> when one of these draws does not
  return. The two loops of \<open>fill_up_randomly\<close> need \<open>table_draws\<close> and \<open>q_draws\<close> draws.\<close>

fun draws :: "Twister \<Rightarrow> nat \<Rightarrow> nat \<Rightarrow> Twister option" where
  "draws tw n 0 = Some tw"
| "draws tw n (Suc k) =
     (case next_int_max tw (int n) of None \<Rightarrow> None | Some (x, tw') \<Rightarrow> draws tw' (n - 1) k)"

definition table_draws :: "Deck \<Rightarrow> Card list \<Rightarrow> nat" where
  "table_draws d v = min (4 - table_sz d) (length v)"

definition q_draws :: "nat \<Rightarrow> Deck \<Rightarrow> Card list \<Rightarrow> nat" where
  "q_draws desired_size d v = min (desired_size - q_sz d) (length v - table_draws d v)"

text \<open>Sequences as the search keeps them: at most 31 tokens, each in \<open>[0, 10)\<close>.\<close>

definition seq_ok :: "State \<Rightarrow> bool" where
  "seq_ok s \<longleftrightarrow>
     length (move_sequence s) \<le> 31 \<and> list_all (\<lambda>t. 0 \<le> t \<and> t < 10) (move_sequence s)"

text \<open>The recursion equations of the partial functions serve as code equations.\<close>

declare next_int_loop.simps [code]
declare fill_table.simps [code]
declare fill_q.simps [code]
declare change_loop.simps [code]
declare mutate_retry.simps [code]

section \<open>Concrete inputs\<close>

text \<open>A generator whose 624 words are all 1, about to hand out its first word.\<close>

definition tw_ones :: Twister where
  "tw_ones = \<lparr>tab = replicate 624 1, ptr = 0\<rparr>"

text \<open>A generator whose words are all \<open>0x12DD9BB3\<close>; tempering turns this word into
  \<open>0xFFFFFFFF\<close>.\<close>

definition tw_top :: Twister where
  "tw_top = \<lparr>tab = replicate 624 316513203, ptr = 0\<rparr>"

text \<open>A card of the sample board: \<open>3 2 0 3 0 red 1\<close>.\<close>

definition card_red1 :: Card where
  "card_red1 = \<lparr>cost = [3, 2, 0, 3, 0], type = 1, value_c = 1\<rparr>"

text \<open>Another card of the sample board: \<open>0 6 0 0 0 red 3\<close>.\<close>

definition card_red3 :: Card where
  "card_red3 = \<lparr>cost = [0, 6, 0, 0, 0], type = 1, value_c = 3\<rparr>"

text \<open>A deck of seven equal cards, each costing four black, four red and four green
  tokens: four on the table and three in the backlog.\<close>

definition card_w :: Card where
  "card_w = \<lparr>cost = [4, 4, 4, 0, 0], type = 4, value_c = 0\<rparr>"

definition deck7 :: Deck where
  "deck7 = \<lparr>table = [card_w, card_w, card_w, card_w], table_sz = 4, q = [card_w, card_w, card_w]\<rparr>"

text \<open>The loop variables of \<open>play_out\<close> after the six tokens \<open>0, 0, 0, 0, 1, 2\<close> have been
  replayed against \<open>deck7\<close> from a fresh state.\<close>

definition card_w_sold :: Card where
  "card_w_sold = card_w\<lparr>type := - 1\<rparr>"

definition replay6 :: replay where
  "replay6 =
     (\<lparr>table = [card_w_sold, card_w_sold, card_w_sold, card_w], table_sz = 4, q = []\<rparr>,
      Deck_init, Deck_init, [0, 0, 0, 0, 6],
      \<lparr>move_sequence = [0, 0, 0, 0, 1, 2], points = 0, tokens_cost = 72, rounds = 6,
       card_sequence = [card_w, card_w, card_w, card_w, card_w, card_w]\<rparr>)"

text \<open>A candidate made of the single token 16.\<close>

definition cand16 :: State where
  "cand16 = State_init\<lparr>move_sequence := [16]\<rparr>"

text \<open>A candidate made of the tokens 13 and 14.\<close>

definition cand1314 :: State where
  "cand1314 = State_init\<lparr>move_sequence := [13, 14]\<rparr>"

text \<open>A deck with three cards on the table, a pool of three cards, and the deck that
  \<open>fill_up_randomly\<close> makes of them with the generator \<open>tw_ones\<close> and a target backlog
  of one card.\<close>

definition deck3 :: Deck where
  "deck3 = \<lparr>table = [card_w, card_w, card_w, Card_init], table_sz = 3, q = []\<rparr>"

definition pool3 :: "Card list" where
  "pool3 = [card_red1, card_red3, card_w]"

definition deck3_filled :: Deck where
  "deck3_filled = \<lparr>table = [card_w, card_w, card_w, card_red3], table_sz = 4, q = [card_w]\<rparr>"

text \<open>A deck with a card worth one point in slot 1, and the candidate with the single
  token 1 that the first mutation of an empty sequence yields with the generator
  \<open>tw_ones\<close>.\<close>

definition deck_p :: Deck where
  "deck_p = \<lparr>table = [card_w, card_red1, card_w, card_w], table_sz = 4, q = []\<rparr>"

definition cand1 :: State where
  "cand1 = State_init\<lparr>move_sequence := [1]\<rparr>"

definition refined1 :: State where
  "refined1 = \<lparr>move_sequence = [1], points = 1, tokens_cost = 8, rounds = 1, card_sequence = [card_red1]\<rparr>"

definition accept_all :: "real \<Rightarrow> int \<Rightarrow> real \<Rightarrow> bool" where
  "accept_all temp delta u = True"

section \<open>Properties of the generator\<close>

lemma smear_bit31:
  assumes "\<not> bit (v :: u32) 31"
  shows "\<not> bit (v OR drop_bit j v) 31"
proof -
  have "\<not> bit v (j + 31)"
    using assms by (cases "j = 0") (auto dest: bit_imp_le_length)
  with assms show ?thesis
    by (simp add: bit_or_iff bit_drop_bit_eq add.commute)
qed

lemma used_mask_bit31: 
  assumes "1 \<le> mx" "mx \<le> 2 ^ 31"
  shows "\<not> bit (used_mask mx) 31"
proof -
  have "(mx - 1) div 2 ^ 31 = 0"
    using assms by simp
  then have "\<not> bit (mx - 1) 31"
    by (simp add: bit_iff_odd)
  then have "\<not> bit (word_of_int (mx - 1) :: u32) 31"
    by (subst bit_word_of_int_iff) simp
  then show ?thesis
    unfolding used_mask_def Let_def by (intro smear_bit31)
qed

lemma sint_and_nonneg:
  assumes "\<not> bit (u :: u32) 31"
  shows "0 \<le> sint (r AND u)"
  using assms by (simp add: sint_uint bit_uint_iff bit_and_iff)

lemma mask_smear: "(mask k :: u32) OR drop_bit j (mask k) = mask k"
  by (rule bit_word_eqI) (auto simp add: bit_or_iff bit_drop_bit_eq bit_mask_iff)

lemma used_mask_pow2: "used_mask (2 ^ k) = mask k"
proof -
  have "(word_of_int (2 ^ k - 1) :: u32) = mask k"
    by (simp add: mask_eq_exp_minus_1)
  then show ?thesis
    by (simp only: used_mask_def Let_def mask_smear)
qed

lemma sint_and_mask: 
  assumes "k < 31"
  shows "sint ((r :: u32) AND mask k) = uint r mod 2 ^ k"
proof -
  have "uint (r AND mask k) = uint (take_bit k r)"
    by (simp only: take_bit_eq_mask)
  also have "\<dots> = take_bit k (uint r)"
    by (rule unsigned_take_bit_eq)
  also have "\<dots> = uint r mod 2 ^ k"
    by (rule take_bit_eq_mod)
  finally have u: "uint (r AND mask k) = uint r mod 2 ^ k" .
  have "(2::int) ^ k < 2 ^ 31"
    using assms by (intro power_strict_increasing) simp_all
  moreover have "uint r mod 2 ^ k < 2 ^ k" "0 \<le> uint r mod 2 ^ k"
    by simp_all
  ultimately have "uint r mod 2 ^ k < 2 ^ 31" "- (2 ^ 31) \<le> uint r mod 2 ^ k"
    by linarith+
  then have "signed_take_bit 31 (uint r mod 2 ^ k) = uint r mod 2 ^ k"
    by (rule signed_take_bit_int_eq_self[rotated])
  with u show ?thesis
    by (simp add: sint_uint)
qed

lemma next_int_loop_range:
  assumes "next_int_loop mx used tw = Some r"
  shows "fst r < mx"
  by (rule next_int_loop.raw_induct[OF _ assms]) (auto simp: Let_def split: prod.splits if_splits)

lemma next_int_loop_nonneg:
  assumes "next_int_loop mx used tw = Some r" "\<not> bit used 31"
  shows "0 \<le> fst r"
proof -
  have "\<not> bit used 31 \<longrightarrow> 0 \<le> fst r"
    by (rule next_int_loop.raw_induct[OF _ assms(1)]) (auto simp: Let_def sint_and_nonneg split: prod.splits if_splits)
  with assms(2) show ?thesis by simp
qed

lemma next_int_loop_first:
  assumes "sint (fst (next_int tw) AND used) < mx"
  shows "next_int_loop mx used tw = Some (sint (fst (next_int tw) AND used), snd (next_int tw))"
  using assms by (subst next_int_loop.simps) (auto simp add: Let_def split: prod.splits)

lemma next_int_max_bounds:
  assumes "1 \<le> mx" "mx < 2 ^ 31" "next_int_max tw mx = Some (a, tw')"
  shows "0 \<le> a \<and> a < mx"
proof -
  from assms(3) have l: "next_int_loop mx (used_mask mx) tw = Some (a, tw')"
    by (simp add: next_int_max_def)
  from assms(1,2) have "\<not> bit (used_mask mx) 31"
    by (intro used_mask_bit31) simp_all
  with l have "0 \<le> a"
    using next_int_loop_nonneg by fastforce
  moreover from l have "a < mx"
    using next_int_loop_range by fastforce
  ultimately show ?thesis ..
qed

lemma low_bits_balanced:
  assumes k: "k \<le> 32" and v: "v < 2 ^ k"
  shows "card {r :: u32. unat r mod 2 ^ k = v} = 2 ^ (32 - k)"
proof -
  define g :: "nat \<Rightarrow> u32" where "g = (\<lambda>h. word_of_nat (v + 2 ^ k * h))"
  have p: "(2::nat) ^ k * 2 ^ (32 - k) = 2 ^ 32"
    using k by (simp add: power_add [symmetric])
  have bound: "v + 2 ^ k * h < 2 ^ 32" if "h < 2 ^ (32 - k)" for h
  proof -
    from that have "h + 1 \<le> 2 ^ (32 - k)" by simp
    then have "2 ^ k * (h + 1) \<le> (2::nat) ^ k * 2 ^ (32 - k)"
      by (rule mult_le_mono2)
    with v p show ?thesis by simp
  qed
  have un: "unat (g h) = v + 2 ^ k * h" if "h < 2 ^ (32 - k)" for h
  proof -
    have "unat (g h) = (v + 2 ^ k * h) mod 2 ^ 32"
      unfolding g_def by (simp only: unat_of_nat) simp
    with bound [OF that] show ?thesis
      by simp
  qed
  have "{r :: u32. unat r mod 2 ^ k = v} = g ` {0..<2 ^ (32 - k)}"
  proof (intro set_eqI iffI)
    fix r :: "u32"
    assume "r \<in> {r. unat r mod 2 ^ k = v}"
    then have m: "unat r mod 2 ^ k = v" by simp
    let ?h = "unat r div 2 ^ k"
    have "unat r < 2 ^ 32"
      using unsigned_less [of r, where 'a = nat] by simp
    then have "unat r < 2 ^ k * 2 ^ (32 - k)"
      by (simp only: p)
    then have "?h < 2 ^ (32 - k)"
      by (simp add: less_mult_imp_div_less mult.commute)
    moreover have "v + 2 ^ k * ?h = unat r"
      using m by (metis mod_mult_div_eq)
    then have "g ?h = r"
      unfolding g_def by simp
    ultimately show "r \<in> g ` {0..<2 ^ (32 - k)}"
      by (metis atLeastLessThan_iff image_eqI zero_le)
  next
    fix r :: "u32"
    assume "r \<in> g ` {0..<2 ^ (32 - k)}"
    then obtain h where h: "h < 2 ^ (32 - k)" and r: "r = g h"
      by auto
    from un [OF h] v have "unat r mod 2 ^ k = v"
      unfolding r by simp
    then show "r \<in> {r. unat r mod 2 ^ k = v}"
      by simp
  qed
  moreover have "inj_on g {0..<2 ^ (32 - k)}"
  proof (rule inj_onI)
    fix a b
    assume a: "a \<in> {0..<2 ^ (32 - k)}" and b: "b \<in> {0..<2 ^ (32 - k)}" and e: "g a = g b"
    from a have "unat (g a) = v + 2 ^ k * a"
      by (intro un) simp
    moreover from b have "unat (g b) = v + 2 ^ k * b"
      by (intro un) simp
    ultimately have "v + 2 ^ k * a = v + 2 ^ k * b"
      using e by (simp only:)
    then show "a = b" by simp
  qed
  ultimately show ?thesis
    by (simp add: card_image)
qed

lemma tw_ones_next_int: "next_int tw_ones = (4194449, tw_ones\<lparr>ptr := 1\<rparr>)"
  by (simp add: next_int_def tw_ones_def N_def extract_number_def Let_def)


text \<open>
  Claim C7. For a bound \<open>mx\<close> with \<open>1 \<le> mx\<close> (and within the range of \<open>int\<close>), whenever the
  rejection loop of \<open>next_int(mx)\<close> returns, the result lies in \<open>[0, mx)\<close>. When the bound
  is a power of two \<open>2 ^ k\<close>, the loop returns after its first draw, and the result is the
  raw 32-bit output reduced to its low \<open>k\<close> bits (the output modulo \<open>2 ^ k\<close>). Each of the
  \<open>2 ^ k\<close> possible results is the reduction of exactly \<open>2 ^ (32 - k)\<close> of the \<open>2 ^ 32\<close> raw
  outputs, so equally likely raw outputs give equally likely results.
\<close>

theorem next_int_max_range:
  "(1 \<le> mx \<and> mx < 2 ^ 31 \<and> next_int_max tw mx = Some (a, tw') \<longrightarrow> 0 \<le> a \<and> a < mx) \<and>
   (k < 31 \<longrightarrow>
      next_int_max tw (2 ^ k) = Some (int (unat (fst (next_int tw)) mod 2 ^ k), snd (next_int tw)) \<and>
      (\<forall>v < 2 ^ k. card {r :: u32. unat r mod 2 ^ k = v} = 2 ^ (32 - k)))"
proof (intro conjI impI allI)
  assume h: "1 \<le> mx \<and> mx < 2 ^ 31 \<and> next_int_max tw mx = Some (a, tw')"
  then show "0 \<le> a" "a < mx"
    using next_int_max_bounds [of mx tw a tw'] by simp_all
next
  assume k: "k < 31"
  have "sint (fst (next_int tw) AND mask k) < 2 ^ k"
    using k by (simp add: sint_and_mask)
  then have "next_int_loop (2 ^ k) (mask k) tw = Some (sint (fst (next_int tw) AND mask k), snd (next_int tw))"
    by (rule next_int_loop_first)
  moreover have "uint (fst (next_int tw)) mod 2 ^ k = int (unat (fst (next_int tw)) mod 2 ^ k)"
    by (simp add: zmod_int)
  ultimately show "next_int_max tw (2 ^ k) = Some (int (unat (fst (next_int tw)) mod 2 ^ k), snd (next_int tw))"
    using k by (simp add: next_int_max_def used_mask_pow2 sint_and_mask)
next
  fix v :: nat
  assume "k < 31" "v < 2 ^ k"
  then show "card {r :: u32. unat r mod 2 ^ k = v} = 2 ^ (32 - k)"
    by (intro low_bits_balanced) simp_all
qed

theorem next_int_max_range_witness:
  "next_int_max tw_ones 3 = Some (1, tw_ones\<lparr>ptr := 1\<rparr>) \<and> (0::int) \<le> 1 \<and> (1::int) < 3 \<and>
   next_int_max tw_ones (2 ^ 3) = Some (1, tw_ones\<lparr>ptr := 1\<rparr>)"
proof -
  have u: "used_mask 3 = 3"
    by (simp add: used_mask_def Let_def)
  have h: "next_int_max tw_ones 3 = Some (1, tw_ones\<lparr>ptr := 1\<rparr>)"
    unfolding next_int_max_def u
    by (subst next_int_loop.simps) (simp add: tw_ones_next_int)
  from next_int_max_range [of 3 tw_ones 1 "tw_ones\<lparr>ptr := 1\<rparr>" 3] h
  show ?thesis
    by (simp add: tw_ones_next_int)
qed

lemma float_shift_small: "a < 2 ^ 24 \<Longrightarrow> float_shift a = 0"
  by (subst float_shift.simps) simp


lemma round_to_float_small: "a < 2 ^ 24 \<Longrightarrow> round_to_float a = a"
  by (simp add: round_to_float_def float_shift_small)




lemma next_float_value:
  "next_float tw =
     (real (round_to_float (unat (fst (next_int tw) AND 0x7FFFFFFF))) / 2 ^ 31, snd (next_int tw))"
  by (simp add: next_float_def next_int_def Let_def)




text \<open>For the generator \<open>tw_top\<close> the masked output is \<open>2^31 - 1\<close>, and the value returned is
  exactly 1.\<close>

lemma next_float_one: "fst (next_float tw_top) = 1"
proof -
  have "fst (next_int tw_top) = 0xFFFFFFFF"
    by (simp add: next_int_def tw_top_def N_def extract_number_def Let_def)
  moreover have "round_to_float 2147483647 = 2147483648"
    by (simp add: round_to_float_def float_shift.simps Let_def)
  ultimately show ?thesis
    by (simp add: next_float_value)
qed

section \<open>The cost of a card\<close>

lemma deficit_nonneg: "0 \<le> deficit c b i"
  by (simp add: deficit_def)

lemma sum_deficit_nonneg: "0 \<le> (\<Sum>i \<leftarrow> js. deficit c b i)"
  by (induction js) (simp_all add: deficit_nonneg)

lemma get_cost_loop_eq:
  "get_cost_loop (cost c) b js res =
     (if (\<exists>i \<in> set js. deficit c b i > 4) \<or> res + (\<Sum>i \<leftarrow> js. deficit c b i) > 12
      then - 1 else res + (\<Sum>i \<leftarrow> js. deficit c b i))"
proof (induction js arbitrary: res)
  case Nil
  then show ?case by simp
next
  case (Cons j js)
  show ?case
  proof (cases "b ! j \<ge> cost c ! j")
    case True
    then have "deficit c b j = 0" by (simp add: deficit_def)
    with True Cons show ?thesis by simp
  next
    case False
    then have d: "deficit c b j = cost c ! j - b ! j" by (simp add: deficit_def)
    show ?thesis
    proof (cases "b ! j + 4 < cost c ! j")
      case True
      with False d show ?thesis by simp
    next
      case False
      with \<open>\<not> cost c ! j \<le> b ! j\<close> d Cons [of "res + (cost c ! j - b ! j)"] show ?thesis
        by (simp add: add.assoc)
    qed
  qed
qed

text \<open>
  Claim C1. For a card with five costs and a bonus vector with five entries, \<open>get_cost\<close>
  returns \<open>-1\<close> (infeasible) if and only if some per-colour deficit exceeds 4 or the sum of
  the five deficits exceeds 12; in every other case it returns exactly that sum.
\<close>

theorem get_cost_spec:
  assumes "length (cost c) = 5" and "length bonuses = 5"
  shows "(get_cost c bonuses = - 1 \<longleftrightarrow> infeasible c bonuses) \<and>
         (\<not> infeasible c bonuses \<longrightarrow> get_cost c bonuses = summed_deficit c bonuses)"
proof -
  have g: "get_cost c bonuses = (if infeasible c bonuses then - 1 else summed_deficit c bonuses)"
    unfolding get_cost_def infeasible_def summed_deficit_def by (simp only: get_cost_loop_eq) simp
  have "0 \<le> summed_deficit c bonuses"
    unfolding summed_deficit_def by (rule sum_deficit_nonneg)
  with g show ?thesis by auto
qed

theorem get_cost_spec_witness:
  "\<not> infeasible card_red1 [1, 0, 0, 0, 0] \<and> get_cost card_red1 [1, 0, 0, 0, 0] = 7 \<and>
   summed_deficit card_red1 [1, 0, 0, 0, 0] = 7 \<and>
   infeasible card_red3 [0, 0, 0, 0, 0] \<and> get_cost card_red3 [0, 0, 0, 0, 0] = - 1"
proof -
  have i: "\<not> infeasible card_red1 [1, 0, 0, 0, 0]"
    by (simp add: infeasible_def summed_deficit_def deficit_def card_red1_def upt_rec)
  have s: "summed_deficit card_red1 [1, 0, 0, 0, 0] = 7"
    by (simp add: summed_deficit_def deficit_def card_red1_def upt_rec)
  have j: "infeasible card_red3 [0, 0, 0, 0, 0]"
    by (simp add: infeasible_def summed_deficit_def deficit_def card_red3_def upt_rec)
  from get_cost_spec [of card_red1 "[1, 0, 0, 0, 0]"] get_cost_spec [of card_red3 "[0, 0, 0, 0, 0]"] i s j
  show ?thesis
    by (simp add: card_red1_def card_red3_def)
qed

section \<open>Replay: single moves\<close>

lemma c_div_nonneg: "0 \<le> a \<Longrightarrow> c_div a 4 = a div 4"
  by (simp add: c_div_def sgn_if)

lemma c_mod_small: "0 \<le> m \<Longrightarrow> m < 16 \<Longrightarrow> c_mod m 16 = m"
  by (simp add: c_mod_def c_div_def sgn_if)

lemma get_cost_ge: "get_cost c b \<noteq> - 1 \<Longrightarrow> 0 \<le> get_cost c b"
proof -
  assume "get_cost c b \<noteq> - 1"
  moreover have "get_cost c b = (if infeasible c b then - 1 else summed_deficit c b)"
    unfolding get_cost_def infeasible_def summed_deficit_def by (simp only: get_cost_loop_eq) simp
  moreover have "0 \<le> summed_deficit c b"
    unfolding summed_deficit_def by (rule sum_deficit_nonneg)
  ultimately show ?thesis by (simp split: if_splits)
qed

lemma process_move_rejects:
  "rejects d x s b \<Longrightarrow> process_move d x s b = Inr (False, d, s, b)"
  by (auto simp: rejects_def process_move_def Let_def)

lemma process_move_False:
  assumes "process_move d x s b = Inr (False, d', s', b')"
  shows "rejects d x s b \<and> d' = d \<and> s' = s \<and> b' = b"
  using assms
  by (auto simp: rejects_def process_move_def Let_def split: sum.splits bool.splits if_splits)

lemma process_move_True:
  assumes "process_move d x s b = Inr (True, d', s', b')"
  shows "0 \<le> x \<and> x < 4 \<and> type (table d ! nat x) \<noteq> - 1 \<and>
         0 \<le> type (table d ! nat x) \<and> type (table d ! nat x) < 5 \<and>
         get_cost (table d ! nat x) b \<noteq> - 1 \<and>
         rounds s + 1 + c_div (tokens_cost s + 3 + get_cost (table d ! nat x) b) 4 \<le> 28 \<and>
         length (card_sequence s) < 40 \<and>
         d' = pop_card d (nat x) \<and>
         s' = s\<lparr>tokens_cost := tokens_cost s + get_cost (table d ! nat x) b,
                rounds := rounds s + 1,
                points := points s + value_c (table d ! nat x),
                card_sequence := card_sequence s @ [table d ! nat x]\<rparr> \<and>
         b' = b[nat (type (table d ! nat x)) := b ! nat (type (table d ! nat x)) + 1]"
  using assms
  by (auto simp: process_move_def can_peak_card_def Let_def split: sum.splits bool.splits if_splits)

lemma play_out_step_addressed:
  "play_out_step (d1, d2, d3, bonus, s) move =
     (case process_move (fst (addressed (d1, d2, d3, bonus, s) move))
             (snd (addressed (d1, d2, d3, bonus, s) move)) s bonus of
        Inl e \<Rightarrow> Inl e
      | Inr (ok, d', s', b') \<Rightarrow>
          (case (if ok then commit_move s' (c_mod move 16) else Inr s') of
             Inl e \<Rightarrow> Inl e
           | Inr s'' \<Rightarrow>
               Inr (if c_mod move 16 < 4 then d' else d1,
                    if c_mod move 16 < 4 then d2 else if c_mod move 16 < 8 then d' else d2,
                    if c_mod move 16 < 8 then d3 else d', b', s'')))"
  by (auto simp: play_out_step_def addressed_def Let_def split: sum.splits prod.splits)

lemma play_out_loop_append:
  "play_out_loop r (xs @ ys) =
     (case play_out_loop r xs of Inl e \<Rightarrow> Inl e | Inr r' \<Rightarrow> play_out_loop r' ys)"
  by (induction xs arbitrary: r) (auto split: sum.splits)

text \<open>
  Claim C5. A token is rejected when the addressed slot is empty, the cost is infeasible
  or the round-budget check fails. Such a token leaves the loop variables of the replay
  (points, token cost, rounds, bonus vector, the three decks, the resolved sequence)
  exactly as they were, and the replay goes on with the next token. The three reasons
  are exactly the cases in which \<open>process_move\<close> returns \<open>false\<close>, and a \<open>false\<close> result
  hands back the deck, the state and the bonus vector unchanged.
\<close>

theorem rejected_token_no_effect:
  "(token_rejected r move \<longrightarrow>
      play_out_step r move = Inr r \<and> play_out_loop r (move # moves) = play_out_loop r moves) \<and>
   (rejects d idx s bonus \<longleftrightarrow> (\<exists>d' s' bonus'. process_move d idx s bonus = Inr (False, d', s', bonus'))) \<and>
   (\<forall>d' s' bonus'. process_move d idx s bonus = Inr (False, d', s', bonus') \<longrightarrow>
        d' = d \<and> s' = s \<and> bonus' = bonus)"
proof -
  have a: "play_out_step r move = Inr r" if "token_rejected r move"
  proof -
    from that have "process_move (fst (addressed r move)) (snd (addressed r move)) (replay_state r) (replay_bonus r)
       = Inr (False, fst (addressed r move), replay_state r, replay_bonus r)"
      unfolding token_rejected_def by (rule process_move_rejects)
    then show ?thesis
      by (cases r) (auto simp: play_out_step_addressed replay_state_def replay_bonus_def addressed_def Let_def)
  qed
  have b: "rejects d idx s bonus \<longleftrightarrow> (\<exists>d' s' bonus'. process_move d idx s bonus = Inr (False, d', s', bonus'))"
    using process_move_rejects process_move_False by blast
  have c: "d' = d \<and> s' = s \<and> bonus' = bonus"
    if "process_move d idx s bonus = Inr (False, d', s', bonus')" for d' s' bonus'
    using that process_move_False by blast
  from a b c show ?thesis
    by simp
qed

theorem rejected_token_no_effect_witness:
  "token_rejected replay6 0 \<and> play_out_step replay6 0 = Inr replay6 \<and>
   play_out_loop replay6 [0, 3] = play_out_loop replay6 [3]"
proof -
  have h: "token_rejected replay6 0"
    by code_simp
  with rejected_token_no_effect [of replay6 0 "[3]"] show ?thesis
    by simp
qed

lemma list_all_update:
  "list_all P xs \<Longrightarrow> P y \<Longrightarrow> list_all P (xs[i := y])"
  by (auto simp: list_all_iff dest: set_update_subset_insert [THEN subsetD])

lemma list_all_butlast:
  "list_all P xs \<Longrightarrow> list_all P (butlast xs)"
  by (auto simp: list_all_iff dest: in_set_butlastD)

lemma list_all_last:
  "list_all P xs \<Longrightarrow> xs \<noteq> [] \<Longrightarrow> P (last xs)"
  by (auto simp: list_all_iff)

lemma pop_card_ok:
  assumes "Deck_ok d" "idx < 4"
  shows "Deck_ok (pop_card d idx)"
proof -
  let ?P = "\<lambda>c. type c = - 1 \<or> catalogue_card c"
  let ?t = "(table d)[idx := (table d ! idx)\<lparr>type := - 1\<rparr>]"
  from assms have t: "list_all ?P (table d)" and qq: "list_all ?P (q d)"
    and len: "length (table d) = 4" and sz: "table_sz d \<le> 4"
    by (simp_all add: Deck_ok_def)
  have t1: "list_all ?P ?t"
    using t by (rule list_all_update) simp
  show ?thesis
  proof (cases "q d = []")
    case True
    with t1 qq len sz show ?thesis
      by (simp add: Deck_ok_def pop_card_def q_sz_def Let_def)
  next
    case False
    with qq have "?P (last (q d))"
      by (rule list_all_last)
    with t1 have "list_all ?P (?t[idx := last (q d)])"
      by (rule list_all_update)
    moreover have "list_all ?P (butlast (q d))"
      using qq by (rule list_all_butlast)
    ultimately show ?thesis
      using False len sz by (simp add: Deck_ok_def pop_card_def q_sz_def Let_def)
  qed
qed

lemma step_cases:
  assumes "play_out_step r move = Inr r'"
  shows "(\<not> token_committed r move \<and> r' = r) \<or>
         (token_committed r move \<and>
          0 \<le> snd (addressed r move) \<and> snd (addressed r move) < 4 \<and>
          0 \<le> type (table (fst (addressed r move)) ! nat (snd (addressed r move))) \<and>
          type (table (fst (addressed r move)) ! nat (snd (addressed r move))) < 5 \<and>
          0 \<le> token_cost r move \<and>
          rounds (replay_state r) + 1 + c_div (tokens_cost (replay_state r) + 3 + token_cost r move) 4 \<le> 28 \<and>
          length (move_sequence (replay_state r)) < 40 \<and>
          length (card_sequence (replay_state r)) < 40 \<and>
          replay_state r' = (replay_state r)
             \<lparr>tokens_cost := tokens_cost (replay_state r) + token_cost r move,
              rounds := rounds (replay_state r) + 1,
              points := points (replay_state r) + value_c (table (fst (addressed r move)) ! nat (snd (addressed r move))),
              card_sequence := card_sequence (replay_state r) @ [table (fst (addressed r move)) ! nat (snd (addressed r move))],
              move_sequence := move_sequence (replay_state r) @ [c_mod move 16]\<rparr> \<and>
          (case r of (d1, d2, d3, bonus, s) \<Rightarrow> case r' of (e1, e2, e3, bonus', s') \<Rightarrow>
             (e1 = d1 \<or> e1 = pop_card d1 (nat (snd (addressed r move))) \<and> fst (addressed r move) = d1) \<and>
             (e2 = d2 \<or> e2 = pop_card d2 (nat (snd (addressed r move))) \<and> fst (addressed r move) = d2) \<and>
             (e3 = d3 \<or> e3 = pop_card d3 (nat (snd (addressed r move))) \<and> fst (addressed r move) = d3)))"
proof -
  obtain d1 d2 d3 bonus s where r: "r = (d1, d2, d3, bonus, s)"
    by (cases r) auto
  obtain e1 e2 e3 bonus1 s1 where r': "r' = (e1, e2, e3, bonus1, s1)"
    by (cases r') auto
  define d where "d = fst (addressed (d1, d2, d3, bonus, s) move)"
  define x where "x = snd (addressed (d1, d2, d3, bonus, s) move)"
  have dd: "(c_mod move 16 < 4 \<longrightarrow> d = d1) \<and> (\<not> c_mod move 16 < 4 \<and> c_mod move 16 < 8 \<longrightarrow> d = d2) \<and>
            (\<not> c_mod move 16 < 8 \<longrightarrow> d = d3)"
    by (auto simp: d_def addressed_def Let_def)
  note pa = assms [unfolded r r' play_out_step_addressed, folded d_def x_def]
  have goal: "(\<not> (case process_move d x s bonus of Inl e \<Rightarrow> False | Inr (ok, d', s', bonus') \<Rightarrow> ok) \<and>
       (e1, e2, e3, bonus1, s1) = (d1, d2, d3, bonus, s)) \<or>
    (case process_move d x s bonus of Inl e \<Rightarrow> False | Inr (ok, d', s', bonus') \<Rightarrow> ok) \<and>
    0 \<le> x \<and> x < 4 \<and> 0 \<le> type (table d ! nat x) \<and> type (table d ! nat x) < 5 \<and>
    0 \<le> get_cost (table d ! nat x) bonus \<and>
    rounds s + 1 + c_div (tokens_cost s + 3 + get_cost (table d ! nat x) bonus) 4 \<le> 28 \<and>
    length (move_sequence s) < 40 \<and> length (card_sequence s) < 40 \<and>
    s1 = s\<lparr>tokens_cost := tokens_cost s + get_cost (table d ! nat x) bonus, rounds := rounds s + 1,
           points := points s + value_c (table d ! nat x),
           card_sequence := card_sequence s @ [table d ! nat x],
           move_sequence := move_sequence s @ [c_mod move 16]\<rparr> \<and>
        (e1 = d1 \<or> e1 = pop_card d1 (nat x) \<and> d = d1) \<and>
        (e2 = d2 \<or> e2 = pop_card d2 (nat x) \<and> d = d2) \<and>
        (e3 = d3 \<or> e3 = pop_card d3 (nat x) \<and> d = d3)"
  proof (cases "process_move d x s bonus")
    case (Inl e)
    with pa show ?thesis
      by simp
  next
    case (Inr res)
    obtain ok d' s' b' where res: "res = (ok, d', s', b')"
      by (cases res) auto
    show ?thesis
    proof (cases ok)
      case False
      with Inr res have "process_move d x s bonus = Inr (False, d', s', b')"
        by simp
      then have "d' = d \<and> s' = s \<and> b' = bonus"
        by (rule process_move_False [THEN conjunct2])
      with False Inr res pa dd show ?thesis
        by (auto split: if_splits)
    next
      case True
      with Inr res have pmv: "process_move d x s bonus = Inr (True, d', s', b')"
        by simp
      note pm = process_move_True [OF pmv]
      from pm have "get_cost (table d ! nat x) bonus \<noteq> - 1" by simp
      then have g: "0 \<le> get_cost (table d ! nat x) bonus" by (rule get_cost_ge)
      from pa pmv True have c: "(case commit_move s' (c_mod move 16) of Inl e \<Rightarrow> Inl e
           | Inr s'' \<Rightarrow>
               Inr (if c_mod move 16 < 4 then d' else d1,
                    if c_mod move 16 < 4 then d2 else if c_mod move 16 < 8 then d' else d2,
                    if c_mod move 16 < 8 then d3 else d', b', s'')) = Inr (e1, e2, e3, bonus1, s1)"
        by simp
      then have len: "length (move_sequence s') < 40"
        and s1: "s1 = s'\<lparr>move_sequence := move_sequence s' @ [c_mod move 16]\<rparr>"
        and e1: "e1 = (if c_mod move 16 < 4 then d' else d1)"
        and e2: "e2 = (if c_mod move 16 < 4 then d2 else if c_mod move 16 < 8 then d' else d2)"
        and e3: "e3 = (if c_mod move 16 < 8 then d3 else d')"
        by (auto simp: commit_move_def split: if_splits)
      from pm have s': "s' = s\<lparr>tokens_cost := tokens_cost s + get_cost (table d ! nat x) bonus,
                rounds := rounds s + 1,
                points := points s + value_c (table d ! nat x),
                card_sequence := card_sequence s @ [table d ! nat x]\<rparr>"
        and d': "d' = pop_card d (nat x)"
        by simp_all
      have A: "(case process_move d x s bonus of Inl e \<Rightarrow> False | Inr (ok, d', s', bonus') \<Rightarrow> ok)"
        using pmv by simp
      have B: "0 \<le> x \<and> x < 4 \<and> 0 \<le> type (table d ! nat x) \<and> type (table d ! nat x) < 5 \<and>
           rounds s + 1 + c_div (tokens_cost s + 3 + get_cost (table d ! nat x) bonus) 4 \<le> 28 \<and>
           length (card_sequence s) < 40"
        using pm by simp
      have C: "length (move_sequence s) < 40"
        using len s' by simp
      have D: "s1 = s\<lparr>tokens_cost := tokens_cost s + get_cost (table d ! nat x) bonus, rounds := rounds s + 1,
           points := points s + value_c (table d ! nat x),
           card_sequence := card_sequence s @ [table d ! nat x],
           move_sequence := move_sequence s @ [c_mod move 16]\<rparr>"
        unfolding s1 s' by simp
      have E: "(e1 = d1 \<or> e1 = pop_card d1 (nat x) \<and> d = d1) \<and>
        (e2 = d2 \<or> e2 = pop_card d2 (nat x) \<and> d = d2) \<and>
        (e3 = d3 \<or> e3 = pop_card d3 (nat x) \<and> d = d3)"
        using dd unfolding e1 e2 e3 d' by auto
      from A B C D E g show ?thesis
        by blast
    qed
  qed
  show ?thesis
    unfolding r r' token_committed_def token_cost_def replay_state_def replay_bonus_def prod.case
      d_def [symmetric] x_def [symmetric]
    by (rule goal)
qed

section \<open>Replay: the loop\<close>

lemma addressed_deck:
  "fst (addressed (d1, d2, d3, bonus, s) move) = d1 \<or>
   fst (addressed (d1, d2, d3, bonus, s) move) = d2 \<or>
   fst (addressed (d1, d2, d3, bonus, s) move) = d3"
  by (simp add: addressed_def Let_def)

lemma addressed_ok:
  "decks_ok r \<Longrightarrow> Deck_ok (fst (addressed r move))"
  by (cases r) (auto simp: decks_ok_def addressed_def Let_def)

lemma c_div_ge0: "0 \<le> a \<Longrightarrow> 0 \<le> c_div a 4"
  by (simp add: c_div_nonneg)

lemma step_count_inv:
  assumes "count_inv r" "play_out_step r move = Inr r'"
  shows "count_inv r'"
proof -
  from step_cases [OF assms(2)] show ?thesis
  proof (elim disjE conjE)
    assume "r' = r"
    with assms(1) show ?thesis by simp
  next
    assume c: "0 \<le> token_cost r move"
      and b: "rounds (replay_state r) + 1 + c_div (tokens_cost (replay_state r) + 3 + token_cost r move) 4 \<le> 28"
      and s: "replay_state r' = (replay_state r)
             \<lparr>tokens_cost := tokens_cost (replay_state r) + token_cost r move,
              rounds := rounds (replay_state r) + 1,
              points := points (replay_state r) + value_c (table (fst (addressed r move)) ! nat (snd (addressed r move))),
              card_sequence := card_sequence (replay_state r) @ [table (fst (addressed r move)) ! nat (snd (addressed r move))],
              move_sequence := move_sequence (replay_state r) @ [c_mod move 16]\<rparr>"
    from assms(1) c have n: "0 \<le> tokens_cost (replay_state r) + 3 + token_cost r move"
      by (simp add: count_inv_def)
    then have "0 \<le> c_div (tokens_cost (replay_state r) + 3 + token_cost r move) 4"
      by (rule c_div_ge0)
    with b have r28: "rounds (replay_state r) + 1 \<le> 28" by linarith
    from assms(1) b have "c_div (tokens_cost (replay_state r) + 3 + token_cost r move) 4 \<le> 27"
      by (simp add: count_inv_def)
    with n have "(tokens_cost (replay_state r) + 3 + token_cost r move) div 4 \<le> 27"
      by (simp add: c_div_nonneg)
    then have "tokens_cost (replay_state r) + token_cost r move \<le> 108"
      by linarith
    with r28 assms(1) c show ?thesis
      unfolding count_inv_def s by simp
  qed
qed

lemma step_decks_ok:
  assumes "decks_ok r" "play_out_step r move = Inr r'"
  shows "decks_ok r'"
proof -
  from step_cases [OF assms(2)] show ?thesis
  proof (elim disjE conjE)
    assume "r' = r"
    with assms(1) show ?thesis by simp
  next
    assume x: "0 \<le> snd (addressed r move)" "snd (addressed r move) < 4"
      and e: "case r of (d1, d2, d3, bonus, s) \<Rightarrow> case r' of (e1, e2, e3, bonus', s') \<Rightarrow>
             (e1 = d1 \<or> e1 = pop_card d1 (nat (snd (addressed r move))) \<and> fst (addressed r move) = d1) \<and>
             (e2 = d2 \<or> e2 = pop_card d2 (nat (snd (addressed r move))) \<and> fst (addressed r move) = d2) \<and>
             (e3 = d3 \<or> e3 = pop_card d3 (nat (snd (addressed r move))) \<and> fst (addressed r move) = d3)"
    from x have n: "nat (snd (addressed r move)) < 4" by simp
    have p: "Deck_ok e" if "Deck_ok dk"
      "e = dk \<or> e = pop_card dk (nat (snd (addressed r move))) \<and> fst (addressed r move) = dk" for e dk
      using that pop_card_ok [OF _ n] by blast
    obtain d1 d2 d3 bonus s where r: "r = (d1, d2, d3, bonus, s)"
      by (cases r) auto
    obtain e1 e2 e3 bonus1 s1 where r': "r' = (e1, e2, e3, bonus1, s1)"
      by (cases r') auto
    from assms(1) have "Deck_ok d1" "Deck_ok d2" "Deck_ok d3"
      by (simp_all add: r decks_ok_def)
    moreover from e have
      "e1 = d1 \<or> e1 = pop_card d1 (nat (snd (addressed r move))) \<and> fst (addressed r move) = d1"
      "e2 = d2 \<or> e2 = pop_card d2 (nat (snd (addressed r move))) \<and> fst (addressed r move) = d2"
      "e3 = d3 \<or> e3 = pop_card d3 (nat (snd (addressed r move))) \<and> fst (addressed r move) = d3"
      unfolding r r' prod.case by blast+
    ultimately have "Deck_ok e1" "Deck_ok e2" "Deck_ok e3"
      using p by blast+
    then show ?thesis
      by (simp add: r' decks_ok_def)
  qed
qed

lemma step_mono:
  assumes "play_out_step r move = Inr r'"
  shows "tokens_cost (replay_state r) \<le> tokens_cost (replay_state r') \<and>
         rounds (replay_state r) \<le> rounds (replay_state r') \<and>
         (decks_ok r \<longrightarrow> points (replay_state r) \<le> points (replay_state r'))"
proof -
  from step_cases [OF assms] show ?thesis
  proof (elim disjE conjE)
    assume "r' = r"
    then show ?thesis by simp
  next
    let ?card = "table (fst (addressed r move)) ! nat (snd (addressed r move))"
    assume c: "0 \<le> token_cost r move"
      and x: "0 \<le> snd (addressed r move)" "snd (addressed r move) < 4"
      and t: "0 \<le> type ?card"
      and s: "replay_state r' = (replay_state r)
             \<lparr>tokens_cost := tokens_cost (replay_state r) + token_cost r move,
              rounds := rounds (replay_state r) + 1,
              points := points (replay_state r) + value_c ?card,
              card_sequence := card_sequence (replay_state r) @ [?card],
              move_sequence := move_sequence (replay_state r) @ [c_mod move 16]\<rparr>"
    have "0 \<le> value_c ?card" if "decks_ok r"
    proof -
      from that have ok: "Deck_ok (fst (addressed r move))" by (rule addressed_ok)
      with x have "?card \<in> set (table (fst (addressed r move)))"
        by (simp add: Deck_ok_def)
      with ok have "type ?card = - 1 \<or> catalogue_card ?card"
        by (simp add: Deck_ok_def list_all_iff)
      with t show ?thesis by (auto simp: catalogue_card_def)
    qed
    with c show ?thesis
      unfolding s by simp
  qed
qed

lemma step_count:
  assumes "play_out_step r move = Inr r'"
  shows "rounds (replay_state r') = rounds (replay_state r) + (if token_committed r move then 1 else 0) \<and>
         length (move_sequence (replay_state r')) =
           length (move_sequence (replay_state r)) + (if token_committed r move then 1 else 0) \<and>
         length (card_sequence (replay_state r')) =
           length (card_sequence (replay_state r)) + (if token_committed r move then 1 else 0)"
  using step_cases [OF assms] by (elim disjE conjE) simp_all

lemma process_move_total:
  assumes "Deck_ok d" "0 \<le> x" "x < 4" "length (card_sequence s) < 40"
  shows "\<exists>ok d' s' b'. process_move d x s b = Inr (ok, d', s', b')"
proof -
  let ?card = "table d ! nat x"
  from assms have "?card \<in> set (table d)"
    by (simp add: Deck_ok_def)
  with assms(1) have "type ?card = - 1 \<or> catalogue_card ?card"
    by (simp add: Deck_ok_def list_all_iff)
  then have "type ?card = - 1 \<or> (0 \<le> type ?card \<and> type ?card < 5)"
    by (auto simp: catalogue_card_def)
  with assms show ?thesis
    by (auto simp: process_move_def can_peak_card_def Let_def)
qed

lemma step_total:
  assumes "decks_ok r" "count_inv r" "0 \<le> move" "move < 12"
  shows "\<exists>r'. play_out_step r move = Inr r'"
proof -
  obtain d1 d2 d3 bonus s where r: "r = (d1, d2, d3, bonus, s)"
    by (cases r) auto
  from assms(3,4) have cm: "c_mod move 16 = move"
    by (simp add: c_mod_small)
  from assms(2) have len: "length (card_sequence s) < 40" "length (move_sequence s) < 40"
    by (simp_all add: count_inv_def r replay_state_def)
  have x: "0 \<le> snd (addressed r move)" "snd (addressed r move) < 4"
    using assms(3,4) by (auto simp: addressed_def r cm Let_def)
  from process_move_total [OF addressed_ok [OF assms(1)] x len(1), of move bonus]
  obtain ok d' s' b' where pm: "process_move (fst (addressed r move)) (snd (addressed r move)) s bonus = Inr (ok, d', s', b')"
    by blast
  show ?thesis
  proof (cases ok)
    case False
    with pm show ?thesis
      unfolding r play_out_step_addressed by (simp add: r)
  next
    case True
    with pm have "move_sequence s' = move_sequence s"
      using process_move_True [of "fst (addressed r move)" "snd (addressed r move)" s bonus d' s' b'] by simp
    with True pm len show ?thesis
      unfolding r play_out_step_addressed by (simp add: r commit_move_def)
  qed
qed

lemma loop_inv:
  assumes "play_out_loop r moves = Inr r'"
  shows "(count_inv r \<longrightarrow> count_inv r') \<and> (decks_ok r \<longrightarrow> decks_ok r')"
  using assms
proof (induction moves arbitrary: r)
  case Nil
  then show ?case by simp
next
  case (Cons m ms)
  then obtain r1 where s: "play_out_step r m = Inr r1" and l: "play_out_loop r1 ms = Inr r'"
    by (auto split: sum.splits)
  from Cons.IH [OF l] step_count_inv [OF _ s] step_decks_ok [OF _ s] show ?case
    by blast
qed

lemma loop_total:
  assumes "decks_ok r" "count_inv r" "\<forall>m \<in> set moves. 0 \<le> m \<and> m < 12"
  shows "\<exists>r'. play_out_loop r moves = Inr r'"
  using assms
proof (induction moves arbitrary: r)
  case Nil
  show ?case by (intro exI [of _ r]) simp
next
  case (Cons m ms)
  then obtain r1 where s: "play_out_step r m = Inr r1"
    using step_total [of r m] by auto
  with Cons.prems have "decks_ok r1" "count_inv r1"
    using step_decks_ok step_count_inv by blast+
  with Cons s show ?case
    by simp
qed

lemma loop_count:
  assumes "play_out_loop r moves = Inr r'"
  shows "rounds (replay_state r') = rounds (replay_state r) + int (count_commits r moves) \<and>
         length (move_sequence (replay_state r')) = length (move_sequence (replay_state r)) + count_commits r moves \<and>
         length (card_sequence (replay_state r')) = length (card_sequence (replay_state r)) + count_commits r moves"
  using assms
proof (induction moves arbitrary: r)
  case Nil
  then show ?case by simp
next
  case (Cons m ms)
  then obtain r1 where s: "play_out_step r m = Inr r1" and l: "play_out_loop r1 ms = Inr r'"
    by (auto split: sum.splits)
  from Cons.IH [OF l] step_count [OF s] s show ?case
    by simp
qed

lemma loop_split:
  assumes "play_out_loop r (pre @ move # rest) = Inr fin"
  shows "\<exists>r1 r2. play_out_loop r pre = Inr r1 \<and> play_out_step r1 move = Inr r2 \<and>
           play_out_loop r2 rest = Inr fin"
  using assms by (auto simp: play_out_loop_append split: sum.splits)

lemma init_inv: "count_inv (d1, d2, d3, replicate 5 0, State_init)"
  by (simp add: count_inv_def replay_state_def State_init_def)

text \<open>
  Claim C3, as the code has it. The quotient in the budget check is the integer division
  of the source: replay never commits a move for which
  \<open>rounds + 1 + (tokens_cost + 3 + cost) div 4 > 28\<close>, where \<open>rounds\<close> and \<open>tokens_cost\<close>
  are the values accumulated by the tokens before the move and \<open>cost\<close> is the cost of the
  move. (The integer quotient \<open>(t + 3) div 4\<close> is the ceiling of \<open>t / 4\<close>.)
\<close>

theorem replay_budget:
  assumes "play_out_loop (d1, d2, d3, replicate 5 0, State_init) pre = Inr r"
    and "token_committed r move"
  shows "rounds (replay_state r) + 1 +
           (tokens_cost (replay_state r) + 3 + token_cost r move) div 4 \<le> 28"
proof -
  from loop_inv [OF assms(1)] init_inv have "count_inv r"
    by blast
  then have t: "0 \<le> tokens_cost (replay_state r)"
    by (simp add: count_inv_def)
  from assms(2) obtain d' s' b' where
    "process_move (fst (addressed r move)) (snd (addressed r move)) (replay_state r) (replay_bonus r)
       = Inr (True, d', s', b')"
    by (auto simp: token_committed_def split: sum.splits)
  note pm = process_move_True [OF this]
  then have "token_cost r move \<noteq> - 1"
    by (simp add: token_cost_def)
  then have "0 \<le> token_cost r move"
    unfolding token_cost_def by (rule get_cost_ge)
  with t have "c_div (tokens_cost (replay_state r) + 3 + token_cost r move) 4
      = (tokens_cost (replay_state r) + 3 + token_cost r move) div 4"
    by (intro c_div_nonneg) simp
  with pm show ?thesis
    by (simp add: token_cost_def)
qed

lemma replay6_run: "play_out_loop (deck7, Deck_init, Deck_init, replicate 5 0, State_init) [0, 0, 0, 0, 1, 2] = Inr replay6"
  by code_simp

lemma replay6_commit: "token_committed replay6 3"
  by code_simp

lemma replay6_cost: "token_cost replay6 3 = 12"
  by code_simp

lemma replay6_state: "rounds (replay_state replay6) = 6" "tokens_cost (replay_state replay6) = 72"
  by (simp_all add: replay6_def replay_state_def)

theorem replay_budget_witness:
  "play_out_loop (deck7, Deck_init, Deck_init, replicate 5 0, State_init) [0, 0, 0, 0, 1, 2] = Inr replay6 \<and>
   token_committed replay6 3 \<and>
   rounds (replay_state replay6) + 1 + (tokens_cost (replay_state replay6) + 3 + token_cost replay6 3) div 4 \<le> 28"
  using replay_budget [OF replay6_run replay6_commit] replay6_run replay6_commit
  by simp

text \<open>With the ceiling of the real quotient \<open>(tokens_cost + 3 + cost) / 4\<close> the bound
  fails: after six purchases of 12 tokens each, a seventh is committed although
  \<open>6 + 1 + \<lceil>87 / 4\<rceil> = 29\<close>.\<close>

theorem replay_budget_ceiling_counterexample:
  "play_out_loop (deck7, Deck_init, Deck_init, replicate 5 0, State_init) [0, 0, 0, 0, 1, 2] = Inr replay6 \<and>
   token_committed replay6 3 \<and>
   rounds (replay_state replay6) + 1 +
     \<lceil>real_of_int (tokens_cost (replay_state replay6) + 3 + token_cost replay6 3) / 4\<rceil> > 28"
  using replay6_run replay6_commit
  by (simp add: replay6_cost replay6_state)

text \<open>
  Claim C4. Replay a candidate sequence from a fresh state against decks of catalogue
  cards. If all tokens lie in \<open>[0, 12)\<close> the replay returns. Whenever it returns, points,
  token cost and rounds do not decrease from any token to the next, and the final number
  of rounds equals the number of committed tokens, which is also the length of the
  resolved move sequence and of the resolved card sequence.
\<close>

theorem replay_counters:
  assumes "Deck_ok d1" and "Deck_ok d2" and "Deck_ok d3"
  shows "((\<forall>m \<in> set cand. 0 \<le> m \<and> m < 12) \<longrightarrow>
            (\<exists>fin. play_out_loop (d1, d2, d3, replicate 5 0, State_init) cand = Inr fin)) \<and>
         (\<forall>fin. play_out_loop (d1, d2, d3, replicate 5 0, State_init) cand = Inr fin \<longrightarrow>
            (\<forall>pre move rest. cand = pre @ move # rest \<longrightarrow>
               (\<exists>r r'. play_out_loop (d1, d2, d3, replicate 5 0, State_init) pre = Inr r \<and>
                  play_out_step r move = Inr r' \<and>
                  points (replay_state r) \<le> points (replay_state r') \<and>
                  tokens_cost (replay_state r) \<le> tokens_cost (replay_state r') \<and>
                  rounds (replay_state r) \<le> rounds (replay_state r'))) \<and>
            rounds (replay_state fin) = int (count_commits (d1, d2, d3, replicate 5 0, State_init) cand) \<and>
            length (move_sequence (replay_state fin)) = count_commits (d1, d2, d3, replicate 5 0, State_init) cand \<and>
            length (card_sequence (replay_state fin)) = count_commits (d1, d2, d3, replicate 5 0, State_init) cand)"
proof -
  let ?r0 = "(d1, d2, d3, replicate 5 0, State_init)"
  have ok0: "decks_ok ?r0"
    using assms by (simp add: decks_ok_def)
  have a: "\<exists>fin. play_out_loop ?r0 cand = Inr fin" if "\<forall>m \<in> set cand. 0 \<le> m \<and> m < 12"
    using ok0 init_inv that by (rule loop_total)
  have b: "\<exists>r r'. play_out_loop ?r0 pre = Inr r \<and> play_out_step r move = Inr r' \<and>
                  points (replay_state r) \<le> points (replay_state r') \<and>
                  tokens_cost (replay_state r) \<le> tokens_cost (replay_state r') \<and>
                  rounds (replay_state r) \<le> rounds (replay_state r')"
    if run: "play_out_loop ?r0 cand = Inr fin" and c: "cand = pre @ move # rest" for fin pre move rest
  proof -
    from loop_split [OF run [unfolded c]] obtain r1 r2
      where p: "play_out_loop ?r0 pre = Inr r1" and s: "play_out_step r1 move = Inr r2"
      by blast
    from loop_inv [OF p] ok0 have "decks_ok r1" by blast
    with step_mono [OF s] p s show ?thesis by blast
  qed
  have c: "rounds (replay_state fin) = int (count_commits ?r0 cand) \<and>
            length (move_sequence (replay_state fin)) = count_commits ?r0 cand \<and>
            length (card_sequence (replay_state fin)) = count_commits ?r0 cand"
    if run: "play_out_loop ?r0 cand = Inr fin" for fin
    using loop_count [OF run] by (simp add: replay_state_def State_init_def)
  from a b c show ?thesis
    by blast
qed

theorem replay_counters_witness:
  "Deck_ok deck7 \<and> Deck_ok Deck_init \<and>
   (\<exists>fin. play_out_loop (deck7, Deck_init, Deck_init, replicate 5 0, State_init) [0, 0, 0, 0, 1, 2] = Inr fin) \<and>
   rounds (replay_state replay6) = int (count_commits (deck7, Deck_init, Deck_init, replicate 5 0, State_init) [0, 0, 0, 0, 1, 2]) \<and>
   rounds (replay_state replay6) = 6"
proof -
  have d: "Deck_ok deck7" "Deck_ok Deck_init"
    by code_simp+
  from replay_counters [OF d(1) d(2) d(2), of "[0, 0, 0, 0, 1, 2]"] d replay6_run show ?thesis
    by (simp add: replay6_state)
qed

section \<open>Replay: which slot a token addresses\<close>

lemma step_at_eq:
  assumes "0 \<le> c_mod move 16" "c_mod move 16 < 12"
  shows "play_out_step r move =
           step_at (nat (c_mod move 16 div 4)) (c_mod move 16 mod 4) (c_mod move 16) r"
proof -
  obtain d1 d2 d3 bonus s where r: "r = (d1, d2, d3, bonus, s)"
    by (cases r) auto
  define x where "x = c_mod move 16"
  from assms have x: "0 \<le> x" "x < 12"
    by (simp_all add: x_def)
  then consider "x < 4" | "4 \<le> x" "x < 8" | "8 \<le> x" "x < 12"
    by linarith
  then show ?thesis
  proof cases
    case 1
    with x have "x div 4 = 0" "x mod 4 = x"
      by simp_all
    with 1 show ?thesis
      unfolding x_def [symmetric] r
      by (auto simp: play_out_step_def step_at_def Let_def x_def [symmetric] split: sum.splits prod.splits)
  next
    case 2
    then have "x div 4 = 1" "x mod 4 = x - 4"
      by presburger+
    with 2 show ?thesis
      unfolding x_def [symmetric] r
      by (auto simp: play_out_step_def step_at_def Let_def x_def [symmetric] split: sum.splits prod.splits)
  next
    case 3
    then have "x div 4 = 2" "x mod 4 = x - 8"
      by presburger+
    with 3 show ?thesis
      unfolding x_def [symmetric] r
      by (auto simp: play_out_step_def step_at_def Let_def x_def [symmetric] split: sum.splits prod.splits)
  qed
qed

lemma high_token_rejected:
  assumes "12 \<le> c_mod move 16" "int (table_sz d3) < c_mod move 16 - 8"
  shows "play_out_step (d1, d2, d3, bonus, s) move = Inr (d1, d2, d3, bonus, s)"
  using assms by (simp add: play_out_step_def process_move_def can_peak_card_def Let_def)

lemma high_tokens_loop:
  assumes "\<forall>m \<in> set moves. 12 \<le> c_mod m 16 \<and> int (table_sz d3) < c_mod m 16 - 8"
  shows "play_out_loop (d1, d2, d3, bonus, s) moves = Inr (d1, d2, d3, bonus, s)"
  using assms by (induction moves) (simp_all add: high_token_rejected)

text \<open>
  Claim C2, as the code has it. Replay reduces a token \<open>m\<close> to \<open>x = m % 16\<close>. For \<open>x\<close> in
  \<open>[0, 12)\<close> (so for every token in \<open>[0, 12)\<close>) it applies the move to table slot \<open>x mod 4\<close>
  of deck number \<open>x div 4\<close>. For \<open>x\<close> in \<open>[12, 16)\<close> it asks the third deck for slot
  \<open>x - 8\<close>, and the token is rejected when the third deck's table counter is below
  \<open>x - 8\<close>; a candidate made only of such tokens is replayed without any effect, so the
  resolved sequence of a fresh state stays empty.
\<close>

theorem token_addressing:
  "(0 \<le> c_mod move 16 \<and> c_mod move 16 < 12 \<longrightarrow>
      play_out_step r move =
        step_at (nat (c_mod move 16 div 4)) (c_mod move 16 mod 4) (c_mod move 16) r) \<and>
   (0 \<le> move \<and> move < 12 \<longrightarrow>
      play_out_step r move = step_at (nat (move div 4)) (move mod 4) move r) \<and>
   ((\<forall>m \<in> set (move_sequence cand). 12 \<le> c_mod m 16 \<and> int (table_sz d3) < c_mod m 16 - 8) \<longrightarrow>
      play_out this d1 d2 d3 cand = Inr this)"
proof -
  have a: "play_out_step r move = step_at (nat (move div 4)) (move mod 4) move r"
    if "0 \<le> move \<and> move < 12"
    using that step_at_eq [of move r] by (simp add: c_mod_small)
  have b: "play_out this d1 d2 d3 cand = Inr this"
    if "\<forall>m \<in> set (move_sequence cand). 12 \<le> c_mod m 16 \<and> int (table_sz d3) < c_mod m 16 - 8"
    using that by (simp add: play_out_def high_tokens_loop)
  from a b step_at_eq [of move r] show ?thesis
    by blast
qed

theorem token_addressing_witness:
  "play_out_step replay6 3 = step_at 0 3 3 replay6 \<and>
   play_out State_init deck7 deck7 deck7 cand1314 = Inr State_init \<and>
   move_sequence State_init = []"
proof -
  have "\<forall>m \<in> set (move_sequence cand1314). 12 \<le> c_mod m 16 \<and> int (table_sz deck7) < c_mod m 16 - 8"
    by (simp add: cand1314_def State_init_def deck7_def c_mod_small)
  with token_addressing [of 3 replay6 cand1314 deck7 State_init deck7 deck7] show ?thesis
    by (simp add: c_mod_small State_init_def)
qed

text \<open>The token 16 is at least 12, but it is reduced to 0 and buys the card in slot 0 of
  the first deck.\<close>

theorem token_sixteen_counterexample:
  "move_sequence cand16 = [16] \<and> (12 :: int) \<le> 16 \<and>
   play_out State_init deck7 Deck_init Deck_init cand16 =
     Inr \<lparr>move_sequence = [0], points = 0, tokens_cost = 12, rounds = 1, card_sequence = [card_w]\<rparr>"
proof -
  have "play_out State_init deck7 Deck_init Deck_init cand16 =
     Inr \<lparr>move_sequence = [0], points = 0, tokens_cost = 12, rounds = 1, card_sequence = [card_w]\<rparr>"
    by code_simp
  then show ?thesis
    by (simp add: cand16_def State_init_def)
qed

section \<open>Random deck completion\<close>

lemma draw_swap_pop_mset:
  assumes "x < length v"
  shows "mset (draw_swap_pop v x) + {#v ! x#} = mset v" and "length (draw_swap_pop v x) = length v - 1"
proof -
  let ?n = "length v - 1"
  let ?w = "v[x := last v, ?n := v ! x]"
  from assms have ne: "v \<noteq> []" and n: "?n < length v"
    by auto
  then have lv: "last v = v ! ?n"
    by (simp add: last_conv_nth)
  have "mset ?w = mset v"
    unfolding lv using assms n by (simp add: mset_swap)
  moreover have w: "?w \<noteq> []" using ne by simp
  moreover have "last ?w = v ! x"
    using n ne by (simp add: last_conv_nth)
  moreover have "mset (butlast ?w) + {#last ?w#} = mset ?w"
  proof -
    from w have "butlast ?w @ [last ?w] = ?w"
      by (rule append_butlast_last_id)
    then have "mset (butlast ?w @ [last ?w]) = mset ?w"
      by (simp only:)
    then show ?thesis by simp
  qed
  ultimately show "mset (draw_swap_pop v x) + {#v ! x#} = mset v"
    by (simp add: draw_swap_pop_def)
  show "length (draw_swap_pop v x) = length v - 1"
    by (simp add: draw_swap_pop_def)
qed

lemma draw_index:
  assumes "next_int_max tw (int (length v)) = Some (x, tw')" "v \<noteq> []" "length v < 2 ^ 31"
  shows "nat x < length v"
proof -
  from assms(2) have "1 \<le> int (length v)"
    by (cases v) simp_all
  moreover from assms(3) have "int (length v) < 2 ^ 31"
    by (simp add: of_nat_less_numeral_power_cancel_iff)
  ultimately have "0 \<le> x \<and> x < int (length v)"
    using assms(1) by (rule next_int_max_bounds)
  then show ?thesis by linarith
qed

lemma fill_table_step:
  assumes ts: "table_sz d < 4" and x: "x < length v" and len: "table_sz d < length (table d)"
    and rec: "table_filled (d\<lparr>table := (table d)[table_sz d := v ! x], table_sz := table_sz d + 1\<rparr>)
                (draw_swap_pop v x) res"
  shows "table_filled d v res"
proof -
  obtain d' v' tw' where res: "res = (d', v', tw')"
    by (cases res) auto
  define n where "n = table_sz d"
  define T where "T = (table d)[n := v ! x]"
  define d1 where "d1 = d\<lparr>table := T, table_sz := n + 1\<rparr>"
  define v1 where "v1 = draw_swap_pop v x"
  have d1: "table_sz d1 = n + 1" "table d1 = T" "q d1 = q d"
    by (simp_all add: d1_def)
  have lT: "length T = length (table d)"
    by (simp add: T_def)
  note m = draw_swap_pop_mset [OF x, folded v1_def]
  from rec have "table_filled d1 v1 (d', v', tw')"
    by (simp add: d1_def v1_def T_def n_def res)
  then have q: "q d' = q d" and l: "length (table d') = length (table d)"
    and s: "table_sz d' = n + 1 + min (4 - (n + 1)) (length v1)"
    and lv: "length v' = length v1 - min (4 - (n + 1)) (length v1)"
    and tk: "take (n + 1) (table d') = take (n + 1) T"
    and ms: "mset (take (table_sz d' - (n + 1)) (drop (n + 1) (table d'))) + mset v' = mset v1"
    unfolding table_filled_def prod.case added_table_def d1 lT by blast+
  from ts have n4: "n < 4" by (simp add: n_def)
  from len have nl: "n < length (table d)" by (simp add: n_def)
  from x n4 have s': "table_sz d' = n + min (4 - n) (length v)"
    unfolding s m(2) min_def by auto
  from x n4 have lv': "length v' = length v - min (4 - n) (length v)"
    unfolding lv m(2) min_def by auto
  have "take n (take (n + 1) (table d')) = take n (take (n + 1) T)"
    by (simp only: tk)
  then have tk': "take n (table d') = take n (table d)"
    by (simp add: min_def T_def)
  have "table d' ! n = take (n + 1) (table d') ! n"
    by simp
  also have "\<dots> = take (n + 1) T ! n"
    by (simp only: tk)
  also have "\<dots> = v ! x"
    using nl by (simp add: T_def)
  finally have nth: "table d' ! n = v ! x" .
  have lt: "n < table_sz d'" unfolding s by simp
  have "drop n (table d') = table d' ! n # drop (n + 1) (table d')"
    using nl l by (simp add: Cons_nth_drop_Suc)
  moreover from lt have "table_sz d' - n = Suc (table_sz d' - (n + 1))"
    by simp
  ultimately have "take (table_sz d' - n) (drop n (table d'))
      = v ! x # take (table_sz d' - (n + 1)) (drop (n + 1) (table d'))"
    by (simp only: nth take_Suc_Cons)
  then have "mset (take (table_sz d' - n) (drop n (table d'))) + mset v' = mset v1 + {#v ! x#}"
    using ms by simp
  with m(1) have "mset (take (table_sz d' - n) (drop n (table d'))) + mset v' = mset v"
    by simp
  with q l s' lv' tk' show ?thesis
    unfolding table_filled_def res prod.case added_table_def n_def by blast
qed

lemma fill_table_spec:
  assumes "fill_table d v tw = Some res"
  shows "length (table d) = 4 \<longrightarrow> length v < 2 ^ 31 \<longrightarrow> table_filled d v res"
proof (rule fill_table.raw_induct [OF _ assms], intro impI)
  fix f d v tw res
  assume IH: "\<And>d v tw res. f d v tw = Some res \<Longrightarrow>
        length (table d) = 4 \<longrightarrow> length v < 2 ^ 31 \<longrightarrow> table_filled d v res"
    and F: "(if table_sz d < 4 \<and> v \<noteq> [] then
        (case next_int_max tw (int (length v)) of
           None \<Rightarrow> None
         | Some (x, tw') \<Rightarrow>
             f (d\<lparr>table := (table d)[table_sz d := v ! nat x], table_sz := table_sz d + 1\<rparr>)
               (draw_swap_pop v (nat x)) tw')
      else Some (d, v, tw)) = Some res"
    and len: "length (table d) = 4" and lv: "length v < 2 ^ 31"
  show "table_filled d v res"
  proof (cases "table_sz d < 4 \<and> v \<noteq> []")
    case False
    with F have "res = (d, v, tw)" by simp
    moreover from False have "min (4 - table_sz d) (length v) = 0"
      by auto
    ultimately show ?thesis
      by (simp add: table_filled_def added_table_def)
  next
    case True
    with F obtain x tw' where
      nx: "next_int_max tw (int (length v)) = Some (x, tw')" and
      r: "f (d\<lparr>table := (table d)[table_sz d := v ! nat x], table_sz := table_sz d + 1\<rparr>)
               (draw_swap_pop v (nat x)) tw' = Some res"
      by (auto split: option.splits)
    from True have "v \<noteq> []" by simp
    with nx have x: "nat x < length v"
      using lv by (rule draw_index)
    have "length (draw_swap_pop v (nat x)) < 2 ^ 31"
      using lv unfolding draw_swap_pop_mset(2) [OF x] by linarith
    with IH [OF r] True len have rec:
      "table_filled (d\<lparr>table := (table d)[table_sz d := v ! nat x], table_sz := table_sz d + 1\<rparr>)
               (draw_swap_pop v (nat x)) res"
      by simp
    from True len have "table_sz d < 4" "table_sz d < length (table d)"
      by simp_all
    from this(1) x this(2) rec show ?thesis
      by (rule fill_table_step)
  qed
qed

lemma fill_q_step:
  assumes qs: "q_sz d < desired_size" and x: "x < length v"
    and rec: "q_filled desired_size (d\<lparr>q := q d @ [v ! x]\<rparr>) (draw_swap_pop v x) res"
  shows "q_filled desired_size d v res"
proof -
  obtain d' v' tw' where res: "res = (d', v', tw')"
    by (cases res) auto
  define n where "n = q_sz d"
  define d1 where "d1 = d\<lparr>q := q d @ [v ! x]\<rparr>"
  define v1 where "v1 = draw_swap_pop v x"
  have d1: "q_sz d1 = n + 1" "table d1 = table d" "table_sz d1 = table_sz d" "q d1 = q d @ [v ! x]"
    by (simp_all add: d1_def q_sz_def n_def)
  have nq: "length (q d) = n"
    by (simp add: n_def q_sz_def)
  note m = draw_swap_pop_mset [OF x, folded v1_def]
  from rec have "q_filled desired_size d1 v1 (d', v', tw')"
    by (simp add: d1_def v1_def res)
  then have t: "table d' = table d" "table_sz d' = table_sz d"
    and s: "q_sz d' = n + 1 + min (desired_size - (n + 1)) (length v1)"
    and lv: "length v' = length v1 - min (desired_size - (n + 1)) (length v1)"
    and tk: "take (n + 1) (q d') = q d @ [v ! x]"
    and ms: "mset (drop (n + 1) (q d')) + mset v' = mset v1"
    unfolding q_filled_def prod.case added_q_def d1 by blast+
  from qs have nd: "n < desired_size" by (simp add: n_def)
  from x nd have s': "q_sz d' = n + min (desired_size - n) (length v)"
    unfolding s m(2) min_def by auto
  from x nd have lv': "length v' = length v - min (desired_size - n) (length v)"
    unfolding lv m(2) min_def by auto
  have "take n (take (n + 1) (q d')) = take n (q d @ [v ! x])"
    by (simp only: tk)
  then have tk': "take n (q d') = q d"
    by (simp add: min_def nq)
  have lt: "n < length (q d')"
    using s by (simp add: q_sz_def)
  have "q d' ! n = take (n + 1) (q d') ! n"
    by simp
  also have "\<dots> = (q d @ [v ! x]) ! n"
    by (simp only: tk)
  also have "\<dots> = v ! x"
    by (simp add: nq [symmetric])
  finally have nth: "q d' ! n = v ! x" .
  have "drop n (q d') = q d' ! n # drop (n + 1) (q d')"
    using lt by (simp add: Cons_nth_drop_Suc)
  then have "mset (drop n (q d')) + mset v' = mset v1 + {#v ! x#}"
    using ms nth by simp
  with m(1) have "mset (drop n (q d')) + mset v' = mset v"
    by simp
  with t s' lv' tk' show ?thesis
    unfolding q_filled_def res prod.case added_q_def n_def by blast
qed

lemma fill_q_spec:
  assumes "fill_q desired_size d v tw = Some res"
  shows "length v < 2 ^ 31 \<longrightarrow> (case res of Inl e \<Rightarrow> True | Inr r \<Rightarrow> q_filled desired_size d v r)"
proof (rule fill_q.raw_induct [OF _ assms], intro impI)
  fix f desired_size d v tw res
  assume IH: "\<And>desired_size d v tw res. f desired_size d v tw = Some res \<Longrightarrow>
        length v < 2 ^ 31 \<longrightarrow> (case res of Inl e \<Rightarrow> True | Inr r \<Rightarrow> q_filled desired_size d v r)"
    and F: "(if q_sz d < desired_size \<and> v \<noteq> [] then
        (case next_int_max tw (int (length v)) of
           None \<Rightarrow> None
         | Some (x, tw') \<Rightarrow>
             if 30 \<le> q_sz d then Some (Inl OutOfBounds)
             else f desired_size (d\<lparr>q := q d @ [v ! nat x]\<rparr>) (draw_swap_pop v (nat x)) tw')
      else Some (Inr (d, v, tw))) = Some res"
    and lv: "length v < 2 ^ 31"
  show "case res of Inl e \<Rightarrow> True | Inr r \<Rightarrow> q_filled desired_size d v r"
  proof (cases "q_sz d < desired_size \<and> v \<noteq> []")
    case False
    with F have "res = Inr (d, v, tw)" by simp
    moreover from False have "min (desired_size - q_sz d) (length v) = 0"
      by auto
    ultimately show ?thesis
      by (simp add: q_filled_def added_q_def q_sz_def)
  next
    case True
    with F obtain x tw' where
      nx: "next_int_max tw (int (length v)) = Some (x, tw')" and
      r: "(if 30 \<le> q_sz d then Some (Inl OutOfBounds)
             else f desired_size (d\<lparr>q := q d @ [v ! nat x]\<rparr>) (draw_swap_pop v (nat x)) tw') = Some res"
      by (auto split: option.splits)
    from True have "v \<noteq> []" by simp
    with nx have x: "nat x < length v"
      using lv by (rule draw_index)
    show ?thesis
    proof (cases "30 \<le> q_sz d")
      case True
      with r show ?thesis by auto
    next
      case False
      with r have r': "f desired_size (d\<lparr>q := q d @ [v ! nat x]\<rparr>) (draw_swap_pop v (nat x)) tw' = Some res"
        by simp
      have "length (draw_swap_pop v (nat x)) < 2 ^ 31"
        using lv unfolding draw_swap_pop_mset(2) [OF x] by linarith
      with IH [OF r'] have rec:
        "case res of Inl e \<Rightarrow> True
         | Inr r \<Rightarrow> q_filled desired_size (d\<lparr>q := q d @ [v ! nat x]\<rparr>) (draw_swap_pop v (nat x)) r"
        by simp
      from True have qs: "q_sz d < desired_size" by simp
      show ?thesis
      proof (cases res)
        case (Inl e)
        then show ?thesis by simp
      next
        case (Inr rr)
        with rec have "q_filled desired_size (d\<lparr>q := q d @ [v ! nat x]\<rparr>) (draw_swap_pop v (nat x)) rr"
          by simp
        with qs x have "q_filled desired_size d v rr"
          by (rule fill_q_step)
        with Inr show ?thesis by simp
      qed
    qed
  qed
qed

lemma draw_swap_pop_length: "length (draw_swap_pop v x) = length v - 1"
  by (simp add: draw_swap_pop_def)

lemma draws_add:
  "draws tw n (a + b) = (case draws tw n a of None \<Rightarrow> None | Some tw1 \<Rightarrow> draws tw1 (n - a) b)"
proof (induction a arbitrary: tw n)
  case 0
  show ?case by simp
next
  case (Suc a)
  show ?case
  proof (cases "next_int_max tw (int n)")
    case None
    then show ?thesis by simp
  next
    case (Some r)
    obtain x tw' where "r = (x, tw')" by (cases r) auto
    with Some Suc [of tw' "n - 1"] show ?thesis
      by (simp cong: option.case_cong)
  qed
qed

lemma fill_table_draws:
  assumes "min (4 - table_sz d) (length v) = k"
  shows "(draws tw (length v) k = None \<longrightarrow> fill_table d v tw = None) \<and>
         (\<forall>tw'. draws tw (length v) k = Some tw' \<longrightarrow> (\<exists>d' v'. fill_table d v tw = Some (d', v', tw')))"
  using assms
proof (induction k arbitrary: d v tw)
  case 0
  then have nc: "\<not> (table_sz d < 4 \<and> v \<noteq> [])"
    by (auto simp: min_def split: if_splits)
  have "fill_table d v tw = Some (d, v, tw)"
    by (subst fill_table.simps) (simp only: nc if_False)
  then show ?case by simp
next
  case (Suc k)
  then have c: "table_sz d < 4 \<and> v \<noteq> []"
    by (auto simp: min_def split: if_splits)
  show ?case
  proof (cases "next_int_max tw (int (length v))")
    case None
    with c have "fill_table d v tw = None"
      by (subst fill_table.simps) simp
    with None show ?thesis by simp
  next
    case (Some r)
    obtain x tw1 where r: "r = (x, tw1)" by (cases r) auto
    let ?d1 = "d\<lparr>table := (table d)[table_sz d := v ! nat x], table_sz := table_sz d + 1\<rparr>"
    let ?v1 = "draw_swap_pop v (nat x)"
    from c Some r have f: "fill_table d v tw = fill_table ?d1 ?v1 tw1"
      by (subst fill_table.simps) simp
    from Suc.prems c have "min (4 - table_sz ?d1) (length ?v1) = k"
      by (auto simp: min_def draw_swap_pop_length split: if_splits)
    from Suc.IH [OF this, of tw1] Some r show ?thesis
      unfolding f by (simp add: draw_swap_pop_length)
  qed
qed

lemma fill_q_draws:
  assumes "min (desired_size - q_sz d) (length v) = k" and "desired_size \<le> 30"
  shows "(draws tw (length v) k = None \<longrightarrow> fill_q desired_size d v tw = None) \<and>
         (\<forall>tw'. draws tw (length v) k = Some tw' \<longrightarrow>
            (\<exists>d' v'. fill_q desired_size d v tw = Some (Inr (d', v', tw'))))"
  using assms(1)
proof (induction k arbitrary: d v tw)
  case 0
  then have nc: "\<not> (q_sz d < desired_size \<and> v \<noteq> [])"
    by (auto simp: min_def split: if_splits)
  have "fill_q desired_size d v tw = Some (Inr (d, v, tw))"
    by (subst fill_q.simps) (simp only: nc if_False)
  then show ?case by simp
next
  case (Suc k)
  then have c: "q_sz d < desired_size \<and> v \<noteq> []"
    by (auto simp: min_def split: if_splits)
  with assms(2) have n30: "\<not> 30 \<le> q_sz d" by simp
  show ?case
  proof (cases "next_int_max tw (int (length v))")
    case None
    with c have "fill_q desired_size d v tw = None"
      by (subst fill_q.simps) simp
    with None show ?thesis by simp
  next
    case (Some r)
    obtain x tw1 where r: "r = (x, tw1)" by (cases r) auto
    let ?d1 = "d\<lparr>q := q d @ [v ! nat x]\<rparr>"
    let ?v1 = "draw_swap_pop v (nat x)"
    from c n30 Some r have f: "fill_q desired_size d v tw = fill_q desired_size ?d1 ?v1 tw1"
      by (subst fill_q.simps) simp
    from Suc.prems c have "min (desired_size - q_sz ?d1) (length ?v1) = k"
      by (auto simp: min_def draw_swap_pop_length q_sz_def split: if_splits)
    from Suc.IH [OF this, of tw1] Some r show ?thesis
      unfolding f by (simp add: draw_swap_pop_length)
  qed
qed

lemma fill3_run:
  "fill_up_randomly deck3 1 pool3 tw_ones = Some (Inr (deck3_filled, [card_red1], tw_ones\<lparr>ptr := 2\<rparr>))"
  by code_simp

lemma fill_up_randomly_result:
  assumes "fill_up_randomly d desired_size v tw = Some (Inr (d', v', tw'))"
    and "length (table d) = 4" and "length v < 2 ^ 31"
  shows "take (table_sz d) (table d') = take (table_sz d) (table d) \<and>
         take (q_sz d) (q d') = q d \<and>
         mset (added_table d d') + mset (added_q d d') + mset v' = mset v \<and>
         table_sz d' = table_sz d + min (4 - table_sz d) (length v) \<and>
         q_sz d' = q_sz d + min (desired_size - q_sz d) (length v - min (4 - table_sz d) (length v)) \<and>
         length v' = length v - (table_sz d' - table_sz d) - (q_sz d' - q_sz d) \<and>
         ((4 \<le> table_sz d' \<and> desired_size \<le> q_sz d') \<or> v' = [])"
proof -
  from assms(1) obtain dm vm twm where
    ft: "fill_table d v tw = Some (dm, vm, twm)" and
    fq: "fill_q desired_size dm vm twm = Some (Inr (d', v', tw'))"
    by (auto simp: fill_up_randomly_def split: option.splits)
  from fill_table_spec [OF ft] assms(2,3) have "table_filled d v (dm, vm, twm)"
    by simp
  then have m1: "q dm = q d" "length (table dm) = length (table d)"
    "table_sz dm = table_sz d + min (4 - table_sz d) (length v)"
    "length vm = length v - min (4 - table_sz d) (length v)"
    "take (table_sz d) (table dm) = take (table_sz d) (table d)"
    "mset (added_table d dm) + mset vm = mset v"
    unfolding table_filled_def prod.case by blast+
  define a where "a = min (4 - table_sz d) (length v)"
  define b where "b = min (desired_size - q_sz d) (length vm)"
  note n1 = m1(3,4) [folded a_def]
  have a: "a \<le> length v" "a = 4 - table_sz d \<or> a = length v"
    by (auto simp: a_def min_def)
  from n1(2) a(1) assms(3) have "length vm < 2 ^ 31"
    by linarith
  with fill_q_spec [OF fq] have "q_filled desired_size dm vm (d', v', tw')"
    by simp
  then have m2: "table d' = table dm" "table_sz d' = table_sz dm"
    "q_sz d' = q_sz dm + min (desired_size - q_sz dm) (length vm)"
    "length v' = length vm - min (desired_size - q_sz dm) (length vm)"
    "take (q_sz dm) (q d') = q dm"
    "mset (added_q dm d') + mset v' = mset vm"
    unfolding q_filled_def prod.case by blast+
  have qq: "q_sz dm = q_sz d"
    using m1(1) by (simp add: q_sz_def)
  note n2 = m2(3,4) [unfolded qq, folded b_def]
  have b: "b \<le> length vm" "b = desired_size - q_sz d \<or> b = length vm"
    by (auto simp: b_def min_def)
  have ta: "added_table d d' = added_table d dm"
    by (simp add: added_table_def m2(1,2))
  have tb: "added_q d d' = added_q dm d'"
    by (simp add: added_q_def qq)
  have c1: "mset (added_table d d') + mset (added_q d d') + mset v' = mset v"
    unfolding ta tb using m1(6) m2(6) by (simp add: add.assoc)
  have c2: "take (table_sz d) (table d') = take (table_sz d) (table d)"
    unfolding m2(1) by (rule m1(5))
  have c3: "take (q_sz d) (q d') = q d"
    using m2(5) unfolding qq m1(1) .
  have c4: "table_sz d' = table_sz d + a"
    unfolding m2(2) by (rule n1(1))
  have c5: "q_sz d' = q_sz d + min (desired_size - q_sz d) (length v - a)"
    using n2(1) unfolding b_def n1(2) .
  have c6: "length v' = length v - (table_sz d' - table_sz d) - (q_sz d' - q_sz d)"
    using n2 n1(2) c4 by linarith
  have c7: "(4 \<le> table_sz d' \<and> desired_size \<le> q_sz d') \<or> v' = []"
  proof (cases "v' = []")
    case True
    then show ?thesis by simp
  next
    case False
    then have "0 < length v'" by simp
    with n2(2) b have "b = desired_size - q_sz d" "0 < length vm"
      by linarith+
    moreover with n1(2) a have "a = 4 - table_sz d"
      by linarith
    ultimately show ?thesis
      using c4 n2(1) by linarith
  qed
  from c1 c2 c3 c4 c5 c6 c7 show ?thesis
    unfolding a_def by blast
qed

text \<open>
  Claim C10. \<open>fill_up_randomly\<close> draws exactly \<open>table_draws + q_draws\<close> cards: first
  \<open>min (4 - table_sz) |pool|\<close> for the table, then cards for the backlog up to the target
  size or until the pool is empty. For a target size within the capacity of the backlog
  it returns if and only if these draws of an index return, and then with the generator
  they leave behind. When it returns, the cards already in the deck are kept, and the
  cards added to the table and to the backlog together with the cards left in the pool
  are exactly the cards of the supplied pool, counted with multiplicity: every added
  card comes from the pool and no pool card is used twice. At the end either the table
  holds 4 cards and the backlog has reached the target size, or the pool is exhausted.
\<close>

theorem fill_up_randomly_draws:
  assumes "length (table d) = 4" and "length v < 2 ^ 31"
  shows
    "(desired_size \<le> 30 \<longrightarrow>
        (draws tw (length v) (table_draws d v + q_draws desired_size d v) = None \<longrightarrow>
           fill_up_randomly d desired_size v tw = None) \<and>
        (\<forall>tw'. draws tw (length v) (table_draws d v + q_draws desired_size d v) = Some tw' \<longrightarrow>
           (\<exists>d' v'. fill_up_randomly d desired_size v tw = Some (Inr (d', v', tw'))))) \<and>
     (\<forall>d' v' tw'. fill_up_randomly d desired_size v tw = Some (Inr (d', v', tw')) \<longrightarrow>
        take (table_sz d) (table d') = take (table_sz d) (table d) \<and>
        take (q_sz d) (q d') = q d \<and>
        mset (added_table d d') + mset (added_q d d') + mset v' = mset v \<and>
        table_sz d' = table_sz d + min (4 - table_sz d) (length v) \<and>
        q_sz d' = q_sz d + min (desired_size - q_sz d) (length v - min (4 - table_sz d) (length v)) \<and>
        length v' = length v - (table_sz d' - table_sz d) - (q_sz d' - q_sz d) \<and>
        ((4 \<le> table_sz d' \<and> desired_size \<le> q_sz d') \<or> v' = []))"
proof -
  let ?kt = "table_draws d v"
  let ?kq = "q_draws desired_size d v"
  have kt: "min (4 - table_sz d) (length v) = ?kt"
    by (simp add: table_draws_def)
  note ft = fill_table_draws [OF kt, of tw]
  note split = draws_add [of tw "length v" ?kt ?kq]
  have a: "fill_up_randomly d desired_size v tw = None"
    if "desired_size \<le> 30" and n: "draws tw (length v) (?kt + ?kq) = None"
  proof (cases "draws tw (length v) ?kt")
    case None
    with ft have "fill_table d v tw = None" by simp
    then show ?thesis by (simp add: fill_up_randomly_def)
  next
    case (Some twm)
    with ft obtain dm vm where f: "fill_table d v tw = Some (dm, vm, twm)"
      by blast
    from fill_table_spec [OF f] assms have "table_filled d v (dm, vm, twm)"
      by simp
    then have "q dm = q d" "length vm = length v - ?kt"
      unfolding table_filled_def prod.case kt by blast+
    then have kq: "min (desired_size - q_sz dm) (length vm) = ?kq" and l: "length vm = length v - ?kt"
      by (simp_all add: q_draws_def q_sz_def)
    from n split Some have "draws twm (length vm) ?kq = None"
      by (simp add: l)
    with fill_q_draws [OF kq that(1), of twm] have "fill_q desired_size dm vm twm = None"
      by simp
    with f show ?thesis by (simp add: fill_up_randomly_def)
  qed
  have b: "\<exists>d' v'. fill_up_randomly d desired_size v tw = Some (Inr (d', v', tw'))"
    if "desired_size \<le> 30" and n: "draws tw (length v) (?kt + ?kq) = Some tw'" for tw'
  proof (cases "draws tw (length v) ?kt")
    case None
    with n split show ?thesis by simp
  next
    case (Some twm)
    with ft obtain dm vm where f: "fill_table d v tw = Some (dm, vm, twm)"
      by blast
    from fill_table_spec [OF f] assms have "table_filled d v (dm, vm, twm)"
      by simp
    then have "q dm = q d" "length vm = length v - ?kt"
      unfolding table_filled_def prod.case kt by blast+
    then have kq: "min (desired_size - q_sz dm) (length vm) = ?kq" and l: "length vm = length v - ?kt"
      by (simp_all add: q_draws_def q_sz_def)
    from n split Some have "draws twm (length vm) ?kq = Some tw'"
      by (simp add: l)
    with fill_q_draws [OF kq that(1), of twm] obtain d' v' where
      "fill_q desired_size dm vm twm = Some (Inr (d', v', tw'))"
      by blast
    with f show ?thesis by (simp add: fill_up_randomly_def)
  qed
  have p1: "desired_size \<le> 30 \<longrightarrow>
        (draws tw (length v) (?kt + ?kq) = None \<longrightarrow> fill_up_randomly d desired_size v tw = None) \<and>
        (\<forall>tw'. draws tw (length v) (?kt + ?kq) = Some tw' \<longrightarrow>
           (\<exists>d' v'. fill_up_randomly d desired_size v tw = Some (Inr (d', v', tw'))))"
    using a b by blast
  have p2: "\<forall>d' v' tw'. fill_up_randomly d desired_size v tw = Some (Inr (d', v', tw')) \<longrightarrow>
        take (table_sz d) (table d') = take (table_sz d) (table d) \<and>
        take (q_sz d) (q d') = q d \<and>
        mset (added_table d d') + mset (added_q d d') + mset v' = mset v \<and>
        table_sz d' = table_sz d + min (4 - table_sz d) (length v) \<and>
        q_sz d' = q_sz d + min (desired_size - q_sz d) (length v - min (4 - table_sz d) (length v)) \<and>
        length v' = length v - (table_sz d' - table_sz d) - (q_sz d' - q_sz d) \<and>
        ((4 \<le> table_sz d' \<and> desired_size \<le> q_sz d') \<or> v' = [])"
    using assms by (intro allI impI) (rule fill_up_randomly_result)
  from p1 p2 show ?thesis
    by (rule conjI)
qed

lemma draws3_run: "draws tw_ones (length pool3) 2 = Some (tw_ones\<lparr>ptr := 2\<rparr>)"
  by code_simp

theorem fill_up_randomly_draws_witness:
  "table_draws deck3 pool3 + q_draws 1 deck3 pool3 = 2 \<and>
   draws tw_ones (length pool3) 2 = Some (tw_ones\<lparr>ptr := 2\<rparr>) \<and>
   (\<exists>d' v'. fill_up_randomly deck3 1 pool3 tw_ones = Some (Inr (d', v', tw_ones\<lparr>ptr := 2\<rparr>))) \<and>
   fill_up_randomly deck3 1 pool3 tw_ones = Some (Inr (deck3_filled, [card_red1], tw_ones\<lparr>ptr := 2\<rparr>)) \<and>
   mset (added_table deck3 deck3_filled) + mset (added_q deck3 deck3_filled) + mset [card_red1] = mset pool3 \<and>
   table_sz deck3_filled = 4 \<and> q_sz deck3_filled = 1"
proof -
  have l: "length (table deck3) = 4" "length pool3 < 2 ^ 31"
    by (simp_all add: deck3_def pool3_def)
  have k: "table_draws deck3 pool3 + q_draws 1 deck3 pool3 = 2"
    by (simp add: table_draws_def q_draws_def deck3_def pool3_def q_sz_def)
  note t = fill_up_randomly_draws [OF l, of 1 tw_ones]
  from t draws3_run k have "\<exists>d' v'. fill_up_randomly deck3 1 pool3 tw_ones = Some (Inr (d', v', tw_ones\<lparr>ptr := 2\<rparr>))"
    by simp
  moreover from t fill3_run
  have "mset (added_table deck3 deck3_filled) + mset (added_q deck3 deck3_filled) + mset [card_red1] = mset pool3"
    by blast
  ultimately show ?thesis
    using k draws3_run fill3_run by (simp add: deck3_filled_def q_sz_def)
qed

section \<open>Mutation\<close>

lemma change_loop_range:
  assumes "change_loop old tw = Some r"
  shows "0 \<le> fst r \<and> fst r < 10"
proof (rule change_loop.raw_induct [OF _ assms])
  fix f old tw r
  assume IH: "\<And>old tw r. f old tw = Some r \<Longrightarrow> 0 \<le> fst r \<and> fst r < 10"
    and F: "(case next_int_max tw 10 of
        None \<Rightarrow> None
      | Some (nxt, tw') \<Rightarrow> if nxt = old then f old tw' else Some (nxt, tw')) = Some r"
  from F obtain nxt tw' where n: "next_int_max tw 10 = Some (nxt, tw')"
    and c: "(if nxt = old then f old tw' else Some (nxt, tw')) = Some r"
    by (auto split: option.splits)
  have "0 \<le> nxt \<and> nxt < 10"
    by (rule next_int_max_bounds [OF _ _ n]) simp_all
  with c IH show "0 \<le> fst r \<and> fst r < 10"
    by (auto split: if_splits)
qed

lemma seq_ok_nth:
  assumes "seq_ok s" "i < length (move_sequence s)"
  shows "0 \<le> move_sequence s ! i \<and> move_sequence s ! i < 10"
  using assms by (simp add: seq_ok_def list_all_length)

lemma mutate_change:
  assumes "seq_ok s" "change_loop old tw = Some (nxt, tw')"
  shows "seq_ok (s\<lparr>move_sequence := (move_sequence s)[i := nxt]\<rparr>)"
proof -
  from change_loop_range [OF assms(2)] have "0 \<le> nxt \<and> nxt < 10"
    by simp
  with assms(1) show ?thesis
    by (simp add: seq_ok_def list_all_update)
qed

lemma mutate_insert:
  assumes "seq_ok s" "\<not> length (move_sequence s) > 30" "next_int_max tw 10 = Some (nxt, tw')"
  shows "seq_ok (s\<lparr>move_sequence := take p (move_sequence s) @ [nxt] @ drop p (move_sequence s)\<rparr>)"
proof -
  have n: "0 \<le> nxt \<and> nxt < 10"
    by (rule next_int_max_bounds [OF _ _ assms(3)]) simp_all
  let ?P = "\<lambda>t. 0 \<le> t \<and> t < (10::int)"
  from assms(1) have "list_all ?P (take p (move_sequence s) @ drop p (move_sequence s))"
    by (simp add: seq_ok_def)
  then have "list_all ?P (take p (move_sequence s))" "list_all ?P (drop p (move_sequence s))"
    by (simp_all only: list_all_append)
  with n have "list_all ?P (take p (move_sequence s) @ [nxt] @ drop p (move_sequence s))"
    by simp
  moreover have "length (take p (move_sequence s) @ [nxt] @ drop p (move_sequence s)) = length (move_sequence s) + 1"
    by simp
  ultimately show ?thesis
    using assms(2) by (simp add: seq_ok_def del: append_take_drop_id)
qed

lemma mutate_swap:
  assumes "seq_ok s" "i < length (move_sequence s)" "j < length (move_sequence s)"
  shows "seq_ok (s\<lparr>move_sequence := (move_sequence s)[i := move_sequence s ! j, j := move_sequence s ! i]\<rparr>)"
  using assms seq_ok_nth [OF assms(1,2)] seq_ok_nth [OF assms(1,3)]
  by (simp add: seq_ok_def list_all_update)

lemma mutate_ok:
  assumes m: "mutate s tw = Some (ok, s', tw')" and ok: "seq_ok s"
  shows "seq_ok s' \<and> (\<not> ok \<longrightarrow> s' = s) \<and> card_sequence s' = card_sequence s \<and>
         (length (move_sequence s') = length (move_sequence s) \<or>
          length (move_sequence s) \<le> 30 \<and> length (move_sequence s') = length (move_sequence s) + 1)"
proof -
  let ?ms = "move_sequence s"
  from ok have l31: "length ?ms < 2 ^ 31"
    by (simp add: seq_ok_def)
  from m obtain md tw1 where d: "next_int_max tw 3 = Some (md, tw1)"
    by (auto simp: mutate_def split: option.splits)
  consider (change) "md = 0" | (insert) "md = 1" | (swap) "md = 2" | (none) "md \<noteq> 0" "md \<noteq> 1" "md \<noteq> 2"
    by blast
  then show ?thesis
  proof cases
    case change
    show ?thesis
    proof (cases "length ?ms = 0")
      case True
      with m d change ok show ?thesis
        by (simp add: mutate_def)
    next
      case False
      with m d change obtain pos tw2 nxt where
        c: "change_loop (?ms ! nat pos) tw2 = Some (nxt, tw')"
        and s': "s' = s\<lparr>move_sequence := ?ms[nat pos := nxt]\<rparr>" and "ok"
        by (auto simp: mutate_def split: option.splits)
      with mutate_change [OF ok c] show ?thesis
        by simp
    qed
  next
    case insert
    show ?thesis
    proof (cases "length ?ms > 30")
      case True
      with m d insert ok show ?thesis
        by (simp add: mutate_def)
    next
      case False
      with m d insert obtain pos tw2 nxt where
        c: "next_int_max tw2 10 = Some (nxt, tw')"
        and s': "s' = s\<lparr>move_sequence := take (nat pos) ?ms @ [nxt] @ drop (nat pos) ?ms\<rparr>" and "ok"
        by (auto simp: mutate_def split: option.splits)
      from s' have "length (move_sequence s') = length ?ms + 1" "card_sequence s' = card_sequence s"
        by (simp_all add: min_def)
      with mutate_insert [OF ok False c, of "nat pos"] False \<open>ok\<close> show ?thesis
        unfolding s' by simp
    qed
  next
    case swap
    show ?thesis
    proof (cases "length ?ms < 3")
      case True
      with m d swap ok show ?thesis
        by (simp add: mutate_def)
    next
      case False
      with m d swap obtain px tw2 py where
        px: "next_int_max tw1 (int (length ?ms)) = Some (px, tw2)" and
        py: "next_int_max tw2 (int (length ?ms)) = Some (py, tw')" and
        r: "(ok, s') = (if px = py then (False, s)
                else if ?ms ! nat px = ?ms ! nat py then (False, s)
                else (True, s\<lparr>move_sequence := ?ms[nat px := ?ms ! nat py, nat py := ?ms ! nat px]\<rparr>))"
        by (auto simp: mutate_def split: option.splits if_splits)
      from False have ne: "?ms \<noteq> []" by auto
      from draw_index [OF px ne l31] draw_index [OF py ne l31]
      have "seq_ok (s\<lparr>move_sequence := ?ms[nat px := ?ms ! nat py, nat py := ?ms ! nat px]\<rparr>)"
        by (rule mutate_swap [OF ok])
      with r ok show ?thesis
        by (auto split: if_splits)
    qed
  next
    case none
    with m d ok show ?thesis
      by (simp add: mutate_def)
  qed
qed

lemma mutate_retry_ok:
  assumes "mutate_retry s tw = Some r"
  shows "seq_ok s \<longrightarrow> seq_ok (fst r) \<and> card_sequence (fst r) = card_sequence s \<and>
           length (move_sequence (fst r)) \<le> length (move_sequence s) + 1"
proof (rule mutate_retry.raw_induct [OF _ assms], intro impI)
  fix f s tw r
  assume IH: "\<And>s tw r. f s tw = Some r \<Longrightarrow> seq_ok s \<longrightarrow> seq_ok (fst r) \<and> card_sequence (fst r) = card_sequence s \<and>
           length (move_sequence (fst r)) \<le> length (move_sequence s) + 1"
    and F: "(case mutate s tw of
        None \<Rightarrow> None
      | Some (ok, s', tw') \<Rightarrow> if ok then Some (s', tw') else f s' tw') = Some r"
    and ok: "seq_ok s"
  from F obtain b s' tw' where m: "mutate s tw = Some (b, s', tw')"
    and c: "(if b then Some (s', tw') else f s' tw') = Some r"
    by (auto split: option.splits)
  note mo = mutate_ok [OF m ok]
  show "seq_ok (fst r) \<and> card_sequence (fst r) = card_sequence s \<and>
           length (move_sequence (fst r)) \<le> length (move_sequence s) + 1"
  proof (cases b)
    case True
    with c have "r = (s', tw')" by simp
    with mo show ?thesis by auto
  next
    case False
    with c mo have "f s tw' = Some r" by simp
    from IH [OF this] ok show ?thesis by simp
  qed
qed

section \<open>The search keeps its sequences short\<close>

lemma count_commits_le: "count_commits r moves \<le> length moves"
proof (induction moves arbitrary: r)
  case Nil
  show ?case by simp
next
  case (Cons m ms)
  show ?case
  proof (cases "play_out_step r m")
    case (Inl e)
    then show ?thesis by simp
  next
    case (Inr r1)
    with Cons [of r1] show ?thesis by simp
  qed
qed

lemma step_tokens:
  assumes "play_out_step r move = Inr r'"
    and "list_all P (move_sequence (replay_state r))" and "P (c_mod move 16)"
  shows "list_all P (move_sequence (replay_state r'))"
  using step_cases [OF assms(1)] assms(2,3) by (elim disjE conjE) simp_all

lemma loop_tokens:
  assumes "play_out_loop r moves = Inr r'"
    and "list_all P (move_sequence (replay_state r))" and "\<forall>m \<in> set moves. P (c_mod m 16)"
  shows "list_all P (move_sequence (replay_state r'))"
  using assms
proof (induction moves arbitrary: r)
  case Nil
  then show ?case by simp
next
  case (Cons m ms)
  then obtain r1 where s: "play_out_step r m = Inr r1" and l: "play_out_loop r1 ms = Inr r'"
    by (auto split: sum.splits)
  from step_tokens [OF s Cons.prems(2)] Cons.prems(3) have "list_all P (move_sequence (replay_state r1))"
    by simp
  with Cons.IH [OF l] Cons.prems(3) show ?case
    by simp
qed

lemma play_out_ok:
  assumes d: "Deck_ok d1" "Deck_ok d2" "Deck_ok d3" and c: "seq_ok cand"
  shows "\<exists>refined. play_out State_init d1 d2 d3 cand = Inr refined \<and> seq_ok refined \<and>
           length (move_sequence refined) \<le> length (move_sequence cand) \<and>
           length (move_sequence refined) \<le> 28 \<and>
           length (card_sequence refined) = length (move_sequence refined)"
proof -
  let ?r0 = "(d1, d2, d3, replicate 5 0, State_init)"
  let ?P = "\<lambda>t. 0 \<le> t \<and> t < (10::int)"
  have ok0: "decks_ok ?r0"
    using d by (simp add: decks_ok_def)
  from c have t: "\<forall>m \<in> set (move_sequence cand). 0 \<le> m \<and> m < 10"
    by (simp add: seq_ok_def list_all_iff)
  then have "\<forall>m \<in> set (move_sequence cand). 0 \<le> m \<and> m < 12"
    by auto
  with loop_total [OF ok0 init_inv] obtain fin where run: "play_out_loop ?r0 (move_sequence cand) = Inr fin"
    by blast
  obtain e1 e2 e3 b refined where fin: "fin = (e1, e2, e3, b, refined)"
    by (cases fin) auto
  from run fin have po: "play_out State_init d1 d2 d3 cand = Inr refined"
    by (simp add: play_out_def)
  have rs: "replay_state fin = refined"
    by (simp add: fin replay_state_def)
  from loop_inv [OF run] init_inv have "count_inv fin"
    by blast
  then have l28: "length (move_sequence refined) \<le> 28" and
    lc: "length (card_sequence refined) = length (move_sequence refined)"
    unfolding count_inv_def rs by linarith+
  from loop_count [OF run] count_commits_le [of ?r0 "move_sequence cand"]
  have ll: "length (move_sequence refined) \<le> length (move_sequence cand)"
    unfolding rs by (simp add: replay_state_def State_init_def)
  from t have "\<forall>m \<in> set (move_sequence cand). ?P (c_mod m 16)"
    by (auto simp: c_mod_small)
  moreover have "list_all ?P (move_sequence (replay_state ?r0))"
    by (simp add: replay_state_def State_init_def)
  ultimately have "list_all ?P (move_sequence (replay_state fin))"
    by (rule loop_tokens [OF run, rotated])
  with l28 have "seq_ok refined"
    unfolding rs by (simp add: seq_ok_def)
  with po ll l28 lc show ?thesis
    by blast
qed

lemma seq_ok_init: "seq_ok State_init"
  by (simp add: seq_ok_def State_init_def)

lemma seq_ok_copy: "seq_ok (State_copy s) = seq_ok s"
  by (simp add: seq_ok_def State_copy_def)

lemma anneal_step_ok:
  assumes d: "Deck_ok d1" "Deck_ok d2" "Deck_ok d3" and s: "seq_ok st"
    and a: "anneal_step accept d1 d2 d3 temp (st, best, tw) = Some res"
  shows "\<exists>st' best' tw'. res = Inr (st', best', tw') \<and> seq_ok st' \<and> (seq_ok best \<longrightarrow> seq_ok best')"
proof -
  from a obtain cand tw1 where mr: "mutate_retry (State_copy st) tw = Some (cand, tw1)"
    by (auto simp: anneal_step_def split: option.splits)
  from mutate_retry_ok [OF mr] s have c: "seq_ok cand"
    by (simp add: seq_ok_copy)
  from play_out_ok [OF d c] obtain refined where
    po: "play_out State_init d1 d2 d3 cand = Inr refined" and r: "seq_ok refined"
    by blast
  from a mr po have "res = Inr (if accept temp (points refined - points st) (fst (next_float tw1)) then refined else st,
       if points refined > points best then DeepCopy best refined else best, snd (next_float tw1))"
    by (auto simp add: anneal_step_def Let_def split: prod.splits)
  with r s show ?thesis
    by (simp add: DeepCopy_def)
qed

lemma anneal_loop_ok:
  assumes d: "Deck_ok d1" "Deck_ok d2" "Deck_ok d3" and s: "seq_ok st"
    and a: "anneal_loop accept d1 d2 d3 temps (st, best, tw) = Some res"
  shows "\<exists>st' best' tw'. res = Inr (st', best', tw') \<and> seq_ok st' \<and> (seq_ok best \<longrightarrow> seq_ok best')"
  using s a
proof (induction temps arbitrary: st best tw)
  case Nil
  then show ?case by auto
next
  case (Cons temp temps)
  from Cons.prems(2) obtain r1 where st1: "anneal_step accept d1 d2 d3 temp (st, best, tw) = Some r1"
    by (auto split: option.splits)
  from anneal_step_ok [OF d Cons.prems(1) st1] obtain st1 best1 tw1 where
    r1: "r1 = Inr (st1, best1, tw1)" and ok1: "seq_ok st1" "seq_ok best \<longrightarrow> seq_ok best1"
    by blast
  from Cons.prems(2) st1 r1 have "anneal_loop accept d1 d2 d3 temps (st1, best1, tw1) = Some res"
    by simp
  from Cons.IH [OF ok1(1) this] ok1(2) show ?case
    by blast
qed

lemma mutate1_run: "mutate_retry (State_copy State_init) tw_ones = Some (cand1, tw_ones\<lparr>ptr := 3\<rparr>)"
  by code_simp

lemma refined1_run: "play_out State_init deck_p Deck_init Deck_init cand1 = Inr refined1"
  by code_simp

lemma deck_p_ok: "Deck_ok deck_p" "Deck_ok Deck_init"
  by code_simp+

text \<open>
  Claim C9. Call a sequence short when it has at most 31 tokens, all in \<open>[0, 10)\<close>. The
  empty sequence of a fresh state is short. If the incumbent is short, then a mutation
  yields a short sequence, of the same length or, only when the length is at most 30,
  one token longer; the candidate that the retried mutation delivers is short; its
  replay against decks of catalogue cards returns without an out-of-range access and
  yields a short resolved sequence that is not longer than the candidate. So one step
  of the search, the whole annealing loop and a search run started from the empty
  sequence never end in \<open>OutOfBounds\<close>, their incumbent stays short, and a short
  best state stays short. Every position that a mutation draws lies inside the
  sequence (for an insertion: inside or just behind it, below the capacity of 40).
\<close>

theorem search_sequences_bounded:
  assumes "Deck_ok d1" and "Deck_ok d2" and "Deck_ok d3" and "seq_ok st"
  shows "seq_ok State_init \<and>
    (\<forall>ok s' tw'. mutate st tw = Some (ok, s', tw') \<longrightarrow>
       seq_ok s' \<and>
       (length (move_sequence s') = length (move_sequence st) \<or>
        length (move_sequence st) \<le> 30 \<and> length (move_sequence s') = length (move_sequence st) + 1)) \<and>
    (\<forall>cand tw1. mutate_retry (State_copy st) tw = Some (cand, tw1) \<longrightarrow>
       seq_ok cand \<and>
       (\<exists>refined. play_out State_init d1 d2 d3 cand = Inr refined \<and> seq_ok refined \<and>
          length (move_sequence refined) \<le> length (move_sequence cand))) \<and>
    (\<forall>res. anneal_step accept d1 d2 d3 temp (st, best, tw) = Some res \<longrightarrow>
       (\<exists>st' best' tw'. res = Inr (st', best', tw') \<and> seq_ok st' \<and> (seq_ok best \<longrightarrow> seq_ok best'))) \<and>
    (\<forall>res. anneal_loop accept d1 d2 d3 temps (st, best, tw) = Some res \<longrightarrow>
       (\<exists>st' best' tw'. res = Inr (st', best', tw') \<and> seq_ok st' \<and> (seq_ok best \<longrightarrow> seq_ok best'))) \<and>
    (\<forall>res. play_randomly accept temps d1 d2 d3 best tw = Some res \<longrightarrow>
       (\<exists>best' tw'. res = Inr (best', tw') \<and> (seq_ok best \<longrightarrow> seq_ok best'))) \<and>
    (\<forall>tw1 pos tw2. move_sequence st \<noteq> [] \<longrightarrow>
       next_int_max tw1 (int (length (move_sequence st))) = Some (pos, tw2) \<longrightarrow>
       0 \<le> pos \<and> nat pos < length (move_sequence st)) \<and>
    (\<forall>tw1 pos tw2. length (move_sequence st) \<le> 30 \<longrightarrow>
       next_int_max tw1 (int (length (move_sequence st)) + 1) = Some (pos, tw2) \<longrightarrow>
       0 \<le> pos \<and> nat pos \<le> length (move_sequence st) \<and> length (move_sequence st) < 40)"
proof -
  note d = assms(1,2,3)
  have a: "seq_ok s' \<and>
       (length (move_sequence s') = length (move_sequence st) \<or>
        length (move_sequence st) \<le> 30 \<and> length (move_sequence s') = length (move_sequence st) + 1)"
    if "mutate st tw = Some (ok, s', tw')" for ok s' tw'
    using mutate_ok [OF that assms(4)] by blast
  have b: "seq_ok cand \<and>
       (\<exists>refined. play_out State_init d1 d2 d3 cand = Inr refined \<and> seq_ok refined \<and>
          length (move_sequence refined) \<le> length (move_sequence cand))"
    if "mutate_retry (State_copy st) tw = Some (cand, tw1)" for cand tw1
  proof -
    from mutate_retry_ok [OF that] assms(4) have c: "seq_ok cand"
      by (simp add: seq_ok_copy)
    with play_out_ok [OF d c] show ?thesis
      by blast
  qed
  have c: "\<exists>st' best' tw'. res = Inr (st', best', tw') \<and> seq_ok st' \<and> (seq_ok best \<longrightarrow> seq_ok best')"
    if "anneal_step accept d1 d2 d3 temp (st, best, tw) = Some res" for res
    using d assms(4) that by (rule anneal_step_ok)
  have e: "\<exists>st' best' tw'. res = Inr (st', best', tw') \<and> seq_ok st' \<and> (seq_ok best \<longrightarrow> seq_ok best')"
    if "anneal_loop accept d1 d2 d3 temps (st, best, tw) = Some res" for res
    using d assms(4) that by (rule anneal_loop_ok)
  have f: "\<exists>best' tw'. res = Inr (best', tw') \<and> (seq_ok best \<longrightarrow> seq_ok best')"
    if "play_randomly accept temps d1 d2 d3 best tw = Some res" for res
  proof -
    from that obtain r1 where l: "anneal_loop accept d1 d2 d3 temps (State_init, best, tw) = Some r1"
      by (auto simp: play_randomly_def split: option.splits)
    from anneal_loop_ok [OF d seq_ok_init l] obtain st' best' tw' where
      "r1 = Inr (st', best', tw')" "seq_ok best \<longrightarrow> seq_ok best'"
      by blast
    with that l show ?thesis
      by (auto simp add: play_randomly_def)
  qed
  have g: "0 \<le> pos \<and> nat pos < length (move_sequence st)"
    if "move_sequence st \<noteq> []" "next_int_max tw1 (int (length (move_sequence st))) = Some (pos, tw2)"
    for tw1 pos tw2
  proof -
    from that(1) have "1 \<le> int (length (move_sequence st))"
      by (cases "move_sequence st") simp_all
    moreover from assms(4) have "int (length (move_sequence st)) < 2 ^ 31"
      by (simp add: seq_ok_def)
    ultimately have "0 \<le> pos \<and> pos < int (length (move_sequence st))"
      using that(2) by (rule next_int_max_bounds)
    then show ?thesis by linarith
  qed
  have h: "0 \<le> pos \<and> nat pos \<le> length (move_sequence st) \<and> length (move_sequence st) < 40"
    if "length (move_sequence st) \<le> 30" "next_int_max tw1 (int (length (move_sequence st)) + 1) = Some (pos, tw2)"
    for tw1 pos tw2
  proof -
    have "1 \<le> int (length (move_sequence st)) + 1"
      by simp
    moreover from that(1) have "int (length (move_sequence st)) + 1 < 2 ^ 31"
      by simp
    ultimately have "0 \<le> pos \<and> pos < int (length (move_sequence st)) + 1"
      using that(2) by (rule next_int_max_bounds)
    with that(1) show ?thesis by linarith
  qed
  have p1: "\<forall>ok s' tw'. mutate st tw = Some (ok, s', tw') \<longrightarrow>
       seq_ok s' \<and>
       (length (move_sequence s') = length (move_sequence st) \<or>
        length (move_sequence st) \<le> 30 \<and> length (move_sequence s') = length (move_sequence st) + 1)"
    by (intro allI impI) (rule a)
  have p2: "\<forall>cand tw1. mutate_retry (State_copy st) tw = Some (cand, tw1) \<longrightarrow>
       seq_ok cand \<and>
       (\<exists>refined. play_out State_init d1 d2 d3 cand = Inr refined \<and> seq_ok refined \<and>
          length (move_sequence refined) \<le> length (move_sequence cand))"
    by (intro allI impI) (rule b)
  have p3: "\<forall>res. anneal_step accept d1 d2 d3 temp (st, best, tw) = Some res \<longrightarrow>
       (\<exists>st' best' tw'. res = Inr (st', best', tw') \<and> seq_ok st' \<and> (seq_ok best \<longrightarrow> seq_ok best'))"
    by (intro allI impI) (rule c)
  have p4: "\<forall>res. anneal_loop accept d1 d2 d3 temps (st, best, tw) = Some res \<longrightarrow>
       (\<exists>st' best' tw'. res = Inr (st', best', tw') \<and> seq_ok st' \<and> (seq_ok best \<longrightarrow> seq_ok best'))"
    by (intro allI impI) (rule e)
  have p5: "\<forall>res. play_randomly accept temps d1 d2 d3 best tw = Some res \<longrightarrow>
       (\<exists>best' tw'. res = Inr (best', tw') \<and> (seq_ok best \<longrightarrow> seq_ok best'))"
    by (intro allI impI) (rule f)
  have p6: "\<forall>tw1 pos tw2. move_sequence st \<noteq> [] \<longrightarrow>
       next_int_max tw1 (int (length (move_sequence st))) = Some (pos, tw2) \<longrightarrow>
       0 \<le> pos \<and> nat pos < length (move_sequence st)"
    by (intro allI impI) (rule g)
  have p7: "\<forall>tw1 pos tw2. length (move_sequence st) \<le> 30 \<longrightarrow>
       next_int_max tw1 (int (length (move_sequence st)) + 1) = Some (pos, tw2) \<longrightarrow>
       0 \<le> pos \<and> nat pos \<le> length (move_sequence st) \<and> length (move_sequence st) < 40"
    by (intro allI impI) (rule h)
  from seq_ok_init p1 p2 p3 p4 p5 p6 p7 show ?thesis
    by (intro conjI)
qed

theorem search_sequences_bounded_witness:
  "Deck_ok deck_p \<and> Deck_ok Deck_init \<and> seq_ok State_init \<and>
   mutate_retry (State_copy State_init) tw_ones = Some (cand1, tw_ones\<lparr>ptr := 3\<rparr>) \<and>
   seq_ok cand1 \<and>
   play_out State_init deck_p Deck_init Deck_init cand1 = Inr refined1 \<and> seq_ok refined1"
proof -
  from search_sequences_bounded [OF deck_p_ok(1) deck_p_ok(2) deck_p_ok(2) seq_ok_init,
      where tw = tw_ones, THEN conjunct2, THEN conjunct2, THEN conjunct1]
  have "seq_ok cand1 \<and>
       (\<exists>refined. play_out State_init deck_p Deck_init Deck_init cand1 = Inr refined \<and> seq_ok refined \<and>
          length (move_sequence refined) \<le> length (move_sequence cand1))"
    using mutate1_run by blast
  with deck_p_ok seq_ok_init mutate1_run refined1_run show ?thesis
    by simp
qed

section \<open>The best state\<close>

lemma anneal_step_best:
  assumes "anneal_step accept d1 d2 d3 temp (st, best, tw) = Some (Inr (st', best', tw'))"
  shows "points best \<le> points best' \<and>
         (best' \<noteq> best \<longrightarrow>
            (\<exists>cand tw1. mutate_retry (State_copy st) tw = Some (cand, tw1) \<and>
               play_out State_init d1 d2 d3 cand = Inr best' \<and> points best < points best'))"
proof -
  from assms obtain cand tw1 where mr: "mutate_retry (State_copy st) tw = Some (cand, tw1)"
    by (auto simp: anneal_step_def split: option.splits)
  with assms obtain refined where po: "play_out State_init d1 d2 d3 cand = Inr refined"
    by (auto simp: anneal_step_def split: sum.splits)
  from assms mr po have "best' = (if points refined > points best then DeepCopy best refined else best)"
    by (auto simp add: anneal_step_def Let_def split: prod.splits)
  with mr po show ?thesis
    by (auto simp: DeepCopy_def)
qed

lemma anneal_loop_best:
  assumes "anneal_loop accept d1 d2 d3 temps (st, best, tw) = Some (Inr (st', best', tw'))"
  shows "points best \<le> points best'"
  using assms
proof (induction temps arbitrary: st best tw)
  case Nil
  then show ?case by simp
next
  case (Cons temp temps)
  from Cons.prems obtain st1 best1 tw1 where
    s: "anneal_step accept d1 d2 d3 temp (st, best, tw) = Some (Inr (st1, best1, tw1))" and
    l: "anneal_loop accept d1 d2 d3 temps (st1, best1, tw1) = Some (Inr (st', best', tw'))"
    by (auto split: option.splits sum.splits)
  from anneal_step_best [OF s] Cons.IH [OF l] show ?case
    by linarith
qed

lemma play_randomly_best:
  assumes "play_randomly accept temps d1 d2 d3 best tw = Some (Inr (best', tw'))"
  shows "points best \<le> points best'"
proof -
  from assms obtain st' where
    "anneal_loop accept d1 d2 d3 temps (State_init, best, tw) = Some (Inr (st', best', tw'))"
    by (auto simp: play_randomly_def split: option.splits sum.splits)
  then show ?thesis
    by (rule anneal_loop_best)
qed

lemma play_runs_best:
  assumes "play_runs accept temps d1 d2 d3 n best tw = Some (Inr (best', tw'))"
  shows "points best \<le> points best'"
  using assms
proof (induction n arbitrary: best tw)
  case 0
  then show ?case by simp
next
  case (Suc n)
  from Suc.prems obtain best1 tw1 where
    p: "play_randomly accept temps d1 d2 d3 best tw = Some (Inr (best1, tw1))" and
    l: "play_runs accept temps d1 d2 d3 n best1 tw1 = Some (Inr (best', tw'))"
    by (auto split: option.splits sum.splits)
  from play_randomly_best [OF p] Suc.IH [OF l] show ?case
    by linarith
qed

text \<open>
  Claim C6. One step of the search replaces the best state only by a refined state
  whose points strictly exceed those of the current best state, so the points of the
  best state do not decrease over a step, over a whole search run (\<open>play_randomly\<close>), over
  any number of consecutive runs and over the ten runs of \<open>play_single_setting\<close>. The
  processing of one randomized deck completion does not depend on the best state it
  finds on entry: it replaces it by a fresh state, and its result is that of ten
  consecutive runs started with this fresh state, so its final points are at least
  those of the fresh state.
\<close>

theorem best_state_monotone:
  "(\<forall>st' best' tw'. anneal_step accept d1 d2 d3 temp (st, best, tw) = Some (Inr (st', best', tw')) \<longrightarrow>
      points best \<le> points best' \<and>
      (best' \<noteq> best \<longrightarrow>
         (\<exists>cand tw1. mutate_retry (State_copy st) tw = Some (cand, tw1) \<and>
            play_out State_init d1 d2 d3 cand = Inr best' \<and> points best < points best'))) \<and>
   (\<forall>st' best' tw'. anneal_loop accept d1 d2 d3 temps (st, best, tw) = Some (Inr (st', best', tw')) \<longrightarrow>
      points best \<le> points best') \<and>
   (\<forall>best' tw'. play_randomly accept temps d1 d2 d3 best tw = Some (Inr (best', tw')) \<longrightarrow>
      points best \<le> points best') \<and>
   (\<forall>best' tw'. play_runs accept temps d1 d2 d3 n best tw = Some (Inr (best', tw')) \<longrightarrow>
      points best \<le> points best') \<and>
   (\<forall>best' tw'. play_single_setting accept temps d1 d2 d3 best tw = Some (Inr (best', tw')) \<longrightarrow>
      points best \<le> points best') \<and>
   play_randomized_deck accept temps full_deck_set d1 d2 d3 best stw tw =
     play_randomized_deck accept temps full_deck_set d1 d2 d3 State_init stw tw \<and>
   (\<forall>best' stw' tw'.
      play_randomized_deck accept temps full_deck_set d1 d2 d3 best stw tw = Some (Inr (best', stw', tw')) \<longrightarrow>
      points State_init \<le> points best' \<and>
      (\<exists>e1 e2. play_runs accept temps e1 e2 d3 10 State_init tw = Some (Inr (best', tw'))))"
proof -
  have a: "points best \<le> points best'"
    if "play_single_setting accept temps d1 d2 d3 best tw = Some (Inr (best', tw'))" for best' tw'
    using that unfolding play_single_setting_def by (rule play_runs_best)
  have b: "play_randomized_deck accept temps full_deck_set d1 d2 d3 best stw tw =
     play_randomized_deck accept temps full_deck_set d1 d2 d3 State_init stw tw"
    by (simp add: play_randomized_deck_def)
  have c: "points State_init \<le> points best' \<and>
      (\<exists>e1 e2. play_runs accept temps e1 e2 d3 10 State_init tw = Some (Inr (best', tw')))"
    if "play_randomized_deck accept temps full_deck_set d1 d2 d3 best stw tw = Some (Inr (best', stw', tw'))"
    for best' stw' tw'
  proof -
    from that obtain e1 e2 where
      p: "play_single_setting accept temps e1 e2 d3 State_init tw = Some (Inr (best', tw'))"
      by (auto simp: play_randomized_deck_def Let_def split: option.splits sum.splits)
    then have "play_runs accept temps (e1\<lparr>q := rev (q e1)\<rparr>) (e2\<lparr>q := rev (q e2)\<rparr>) d3 10 State_init tw
        = Some (Inr (best', tw'))"
      by (simp add: play_single_setting_def)
    with play_runs_best [OF this] show ?thesis
      by blast
  qed
  have p1: "\<forall>st' best' tw'. anneal_step accept d1 d2 d3 temp (st, best, tw) = Some (Inr (st', best', tw')) \<longrightarrow>
      points best \<le> points best' \<and>
      (best' \<noteq> best \<longrightarrow>
         (\<exists>cand tw1. mutate_retry (State_copy st) tw = Some (cand, tw1) \<and>
            play_out State_init d1 d2 d3 cand = Inr best' \<and> points best < points best'))"
    by (intro allI impI) (rule anneal_step_best)
  have p2: "\<forall>st' best' tw'. anneal_loop accept d1 d2 d3 temps (st, best, tw) = Some (Inr (st', best', tw')) \<longrightarrow>
      points best \<le> points best'"
    by (intro allI impI) (rule anneal_loop_best)
  have p3: "\<forall>best' tw'. play_randomly accept temps d1 d2 d3 best tw = Some (Inr (best', tw')) \<longrightarrow>
      points best \<le> points best'"
    by (intro allI impI) (rule play_randomly_best)
  have p4: "\<forall>best' tw'. play_runs accept temps d1 d2 d3 n best tw = Some (Inr (best', tw')) \<longrightarrow>
      points best \<le> points best'"
    by (intro allI impI) (rule play_runs_best)
  have p5: "\<forall>best' tw'. play_single_setting accept temps d1 d2 d3 best tw = Some (Inr (best', tw')) \<longrightarrow>
      points best \<le> points best'"
    by (intro allI impI) (rule a)
  have p7: "\<forall>best' stw' tw'.
      play_randomized_deck accept temps full_deck_set d1 d2 d3 best stw tw = Some (Inr (best', stw', tw')) \<longrightarrow>
      points State_init \<le> points best' \<and>
      (\<exists>e1 e2. play_runs accept temps e1 e2 d3 10 State_init tw = Some (Inr (best', tw')))"
    by (intro allI impI) (rule c)
  from p1 p2 p3 p4 p5 b p7 show ?thesis
    by (intro conjI)
qed

lemma float4: "next_float (tw_ones\<lparr>ptr := 3\<rparr>) = (4194449 / 2 ^ 31, tw_ones\<lparr>ptr := 4\<rparr>)"
  by (simp add: next_float_def tw_ones_def N_def extract_number_def Let_def round_to_float_small)

lemma step1_run:
  "anneal_step accept_all deck_p Deck_init Deck_init 2 (State_init, State_init, tw_ones) =
     Some (Inr (refined1, refined1, tw_ones\<lparr>ptr := 4\<rparr>))"
proof -
  have p: "points State_init = 0" "points refined1 = 1"
    by (simp_all add: State_init_def refined1_def)
  show ?thesis
    by (simp add: anneal_step_def mutate1_run refined1_run float4 accept_all_def DeepCopy_def p)
qed

theorem best_state_monotone_witness:
  "anneal_step accept_all deck_p Deck_init Deck_init 2 (State_init, State_init, tw_ones) =
     Some (Inr (refined1, refined1, tw_ones\<lparr>ptr := 4\<rparr>)) \<and>
   points State_init \<le> points refined1 \<and> points State_init < points refined1 \<and> refined1 \<noteq> State_init"
proof -
  have "refined1 \<noteq> State_init"
    by (simp add: refined1_def State_init_def)
  moreover note best_state_monotone [where accept = accept_all and ?d1.0 = deck_p and ?d2.0 = Deck_init
      and ?d3.0 = Deck_init and temp = 2 and st = State_init and best = State_init and tw = tw_ones,
      THEN conjunct1, rule_format, OF step1_run]
  ultimately show ?thesis
    using step1_run by blast
qed

end
